theory Spec2Isabelle
  imports Main "HOL-Library.Word"
begin

section \<open>Strings and numbers of the source language\<close>

text \<open>
  A JavaScript string is a sequence of 16-bit UTF-16 code units; \<open>length\<close>, \<open>indexOf\<close>,
  \<open>slice\<close> and the DOM's \<open>splitText\<close> all count code units. A JavaScript number that
  holds an index is modelled as an \<open>int\<close>, so that \<open>-1\<close> and the differences the
  source computes keep their sign.
\<close>

type_synonym jsstring = "16 word list"

definition js :: "string \<Rightarrow> jsstring" where
  \<comment> \<open>the code units of an ASCII literal\<close>
  "js s = map (\<lambda>c. of_nat (of_char c)) s"

section \<open>The match engine: \<open>findMatches\<close>\<close>

record MatchRange =
  m_start :: int
  m_end :: int

text \<open>
  \<open>String.prototype.indexOf(searchString, position)\<close>: the position is clamped to
  \<open>[0, length]\<close>, and the result is the least index \<open>k\<close> at or after it where
  \<open>searchString\<close> occurs, or \<open>-1\<close>. \<open>indexOf_scan q t k\<close> scans the suffix \<open>t\<close> that
  starts at index \<open>k\<close>.
\<close>

fun indexOf_scan :: "'a list \<Rightarrow> 'a list \<Rightarrow> nat \<Rightarrow> int" where
  "indexOf_scan q [] k = (if q = [] then int k else -1)"
| "indexOf_scan q (c # t) k =
     (if take (length q) (c # t) = q then int k else indexOf_scan q t (Suc k))"

definition indexOf :: "'a list \<Rightarrow> 'a list \<Rightarrow> int \<Rightarrow> int" where
  "indexOf s q position =
     (let p = nat (min (max position 0) (int (length s)))
      in indexOf_scan q (drop p s) p)"

text \<open>
  The \<open>while\<close> loop of \<open>findMatches\<close>. The source enters the loop only with a non-empty
  \<open>selectedText\<close> (the guard before it returns early); the loop function repeats that
  test so that it is total.
\<close>

function findMatches_loop :: "'a list \<Rightarrow> 'a list \<Rightarrow> int \<Rightarrow> MatchRange list \<Rightarrow> MatchRange list"
where
  "findMatches_loop mergedText selectedText index matches =
     (let i = indexOf mergedText selectedText index
      in if i \<noteq> -1 \<and> selectedText \<noteq> []
         then findMatches_loop mergedText selectedText (i + int (length selectedText))
                (matches @ [\<lparr>m_start = i, m_end = i + int (length selectedText)\<rparr>])
         else matches)"
  by pat_completeness auto
termination
proof (relation "measure (\<lambda>(s, q, index, ms). nat (int (length s) + 1 - index))")
  show "wf (measure (\<lambda>(s :: 'a list, q :: 'a list, index, ms :: MatchRange list).
          nat (int (length s) + 1 - index)))"
    by simp
next
  fix mergedText selectedText :: "'a list" and index x :: int and matches :: "MatchRange list"
  assume x: "x = indexOf mergedText selectedText index"
    and c: "x \<noteq> - 1 \<and> selectedText \<noteq> []"
  have scan: "\<And>k. indexOf_scan selectedText t k \<noteq> -1 \<Longrightarrow>
        int k \<le> indexOf_scan selectedText t k
      \<and> indexOf_scan selectedText t k + int (length selectedText) \<le> int k + int (length t)"
    for t :: "'a list"
  proof (induction t)
    case Nil
    then show ?case by (simp split: if_splits)
  next
    case (Cons c t)
    show ?case
    proof (cases "take (length selectedText) (c # t) = selectedText")
      case True
      then have "length (take (length selectedText) (c # t)) = length selectedText"
        by simp
      then have "length selectedText \<le> length (c # t)"
        unfolding length_take by linarith
      with True show ?thesis by simp
    next
      case False
      with Cons.prems have "indexOf_scan selectedText t (Suc k) \<noteq> -1" by simp
      from Cons.IH [OF this] False show ?thesis by simp
    qed
  qed
  define p where "p = nat (min (max index 0) (int (length mergedText)))"
  have xp: "x = indexOf_scan selectedText (drop p mergedText) p"
    using x by (simp add: indexOf_def p_def Let_def)
  with c have "indexOf_scan selectedText (drop p mergedText) p \<noteq> -1" by simp
  from scan [OF this] xp have
    b: "int p \<le> x" "x + int (length selectedText) \<le> int p + int (length (drop p mergedText))"
    by simp_all
  have ple: "p \<le> length mergedText" by (simp add: p_def)
  have pidx: "index \<le> int p \<or> int p = int (length mergedText)"
    by (simp add: p_def min_def max_def)
  from c have lq: "1 \<le> int (length selectedText)"
    by (cases selectedText) simp_all
  from b ple have b': "x + int (length selectedText) \<le> int (length mergedText)"
    by simp
  from b(1) b' lq pidx
  have "nat (int (length mergedText) + 1 - (x + int (length selectedText)))
        < nat (int (length mergedText) + 1 - index)"
    by linarith
  then show "((mergedText, selectedText, x + int (length selectedText),
               matches @ [\<lparr>m_start = x, m_end = x + int (length selectedText)\<rparr>]),
              (mergedText, selectedText, index, matches))
             \<in> measure (\<lambda>(s, q, index, ms). nat (int (length s) + 1 - index))"
    by simp
qed

definition findMatches :: "'a list \<Rightarrow> 'a list \<Rightarrow> MatchRange list" where
  "findMatches mergedText selectedText =
     (if selectedText = [] then [] else findMatches_loop mergedText selectedText 0 [])"

text \<open>
  The spec's reading of the scan, used to state what \<open>findMatches\<close> returns:
  \<open>occurs_at s q i\<close> says that \<open>q\<close> occurs in \<open>s\<close> at index \<open>i\<close>, and
  \<open>spec_leftmost_first s q p ms\<close> says that \<open>ms\<close> is what a left-to-right scan from
  index \<open>p\<close> records: each range is the first occurrence at or after the point where
  the scan resumed, it is recorded as \<open>{i, i + len q}\<close>, the scan resumes at its end, and
  after the last range there is no further occurrence.
\<close>

definition occurs_at :: "'a list \<Rightarrow> 'a list \<Rightarrow> nat \<Rightarrow> bool" where
  "occurs_at s q i = (i + length q \<le> length s \<and> take (length q) (drop i s) = q)"

fun spec_leftmost_first :: "'a list \<Rightarrow> 'a list \<Rightarrow> nat \<Rightarrow> MatchRange list \<Rightarrow> bool" where
  "spec_leftmost_first s q p [] = (\<forall>j \<in> {p..length s}. \<not> occurs_at s q j)"
| "spec_leftmost_first s q p (m # ms) =
     (0 \<le> m_start m \<and> p \<le> nat (m_start m) \<and> occurs_at s q (nat (m_start m))
      \<and> (\<forall>j \<in> {p..<nat (m_start m)}. \<not> occurs_at s q j)
      \<and> m_end m = m_start m + int (length q)
      \<and> spec_leftmost_first s q (nat (m_end m)) ms)"

section \<open>The content tree\<close>

text \<open>
  The DOM below the root is a tree of text nodes and elements. Every node carries its
  identity (the source compares nodes with \<open>===\<close> and mutates them through
  references), a text node its data, an element its tag name, whether it matches the
  selector \<open>.highlight\<close>, whether its computed style has \<open>display: none\<close> or
  \<open>visibility: hidden\<close>, and its children in document order.
\<close>

datatype node =
    Text nat jsstring
  | Elem nat jsstring bool bool "node list"

fun node_id :: "node \<Rightarrow> nat" where
  "node_id (Text i s) = i"
| "node_id (Elem i tag hl hid kids) = i"

fun textContent :: "node \<Rightarrow> jsstring" where
  "textContent (Text i s) = s"
| "textContent (Elem i tag hl hid kids) = concat (map textContent kids)"

fun children :: "node \<Rightarrow> node list" where
  "children (Text i s) = []"
| "children (Elem i tag hl hid kids) = kids"

text \<open>
  Following a reference: \<open>lookup root i\<close> is the node with identity \<open>i\<close> below the
  root, and \<open>text_data root i\<close> its data when it is a text node. The model holds the
  nodes of the tree only, so a reference to a node outside it finds nothing.
\<close>

fun find_node :: "nat \<Rightarrow> node \<Rightarrow> node option"
  and find_list :: "nat \<Rightarrow> node list \<Rightarrow> node option" where
  "find_node i (Text j s) = (if j = i then Some (Text j s) else None)"
| "find_node i (Elem j tag hl hid kids) =
     (if j = i then Some (Elem j tag hl hid kids) else find_list i kids)"
| "find_list i [] = None"
| "find_list i (k # ks) =
     (case find_node i k of Some x \<Rightarrow> Some x | None \<Rightarrow> find_list i ks)"

definition lookup :: "node \<Rightarrow> nat \<Rightarrow> node option" where
  "lookup root i = find_list i (children root)"

definition text_data :: "node \<Rightarrow> nat \<Rightarrow> jsstring option" where
  "text_data root i = (case lookup root i of Some (Text j s) \<Rightarrow> Some s | _ \<Rightarrow> None)"

text \<open>
  \<open>subst i r n\<close> is what stands in the place of \<open>n\<close> in its parent's child list once
  the node with identity \<open>i\<close> is replaced by the nodes \<open>r\<close>; \<open>replace_in root i r\<close>
  does the replacement below the root, which itself is never replaced.
\<close>

fun subst :: "nat \<Rightarrow> node list \<Rightarrow> node \<Rightarrow> node list" where
  "subst i r (Text j s) = (if j = i then r else [Text j s])"
| "subst i r (Elem j tag hl hid kids) =
     (if j = i then r else [Elem j tag hl hid (concat (map (subst i r) kids))])"

fun replace_in :: "node \<Rightarrow> nat \<Rightarrow> node list \<Rightarrow> node" where
  "replace_in (Text j s) i r = Text j s"
| "replace_in (Elem j tag hl hid kids) i r = Elem j tag hl hid (concat (map (subst i r) kids))"

text \<open>
  A document: the tree below the root (\<open>document.body\<close>, the default root of
  \<open>highlightNode\<close> and of \<open>getTextNodes\<close>) and the identity the next created node
  gets. The elements above the content, the root included, are taken not to match
  \<open>.highlight\<close>.
\<close>

type_synonym dom = "node \<times> nat"

section \<open>The segment collector: \<open>getTextNodes\<close>\<close>

record TextNodeEntry =
  t_node :: nat
  t_start :: int
  t_end :: int

definition EXCLUDED_TAGS :: "jsstring set" where
  "EXCLUDED_TAGS = set (map js [''input'', ''textarea'', ''select'', ''button'',
                                 ''script'', ''style'', ''noscript'', ''template''])"

record GetTextNodesOptions =
  excludeHidden :: "bool option"
  minContentLength :: "int option"

definition no_options :: GetTextNodesOptions where
  \<comment> \<open>the default argument \<open>{}\<close>\<close>
  "no_options = \<lparr>excludeHidden = None, minContentLength = None\<rparr>"

text \<open>
  \<open>String.prototype.trim\<close> removes the leading and trailing code units that ECMAScript
  counts as white space or line terminators.
\<close>

definition is_js_space :: "16 word \<Rightarrow> bool" where
  "is_js_space c =
     (c \<in> set [0x9, 0xA, 0xB, 0xC, 0xD, 0x20, 0xA0, 0x1680, 0x2028, 0x2029, 0x202F, 0x205F,
                0x3000, 0xFEFF]
      \<or> (0x2000 \<le> c \<and> c \<le> 0x200A))"

definition trim :: "jsstring \<Rightarrow> jsstring" where
  "trim s = rev (dropWhile is_js_space (rev (dropWhile is_js_space s)))"

text \<open>
  \<open>String.prototype.toLowerCase\<close> is a function of the platform, defined by the Unicode
  case mappings; the functions that call it take it as the parameter \<open>lower\<close>, and the
  general theorems hold for every such function. \<open>toLowerCase\<close> below is the standard's
  mapping on the code units that the evaluated examples use: the Basic Latin capitals
  map to their small letters, U+0130 (capital I with dot above) maps to the two code
  units U+0069 U+0307 (the unconditional mapping of SpecialCasing.txt), and the other
  Basic Latin code units are unchanged.
\<close>

definition toLowerCase_unit :: "16 word \<Rightarrow> jsstring" where
  "toLowerCase_unit c =
     (if 0x41 \<le> c \<and> c \<le> 0x5A then [c + 0x20]
      else if c = 0x130 then [0x69, 0x307]
      else [c])"

definition toLowerCase :: "jsstring \<Rightarrow> jsstring" where
  "toLowerCase s = concat (map toLowerCase_unit s)"

datatype NodeFilter = FILTER_ACCEPT | FILTER_REJECT | FILTER_SKIP

text \<open>
  \<open>acceptNode\<close> of the tree walker's filter. \<open>parent\<close> is \<open>node.parentElement\<close>, given by
  its tag name and by whether its computed style hides it; \<open>data\<close> is the text
  node's \<open>textContent\<close>; \<open>excl_hidden\<close> and \<open>min_length\<close> are the options
  \<open>excludeHidden\<close> and \<open>minContentLength\<close> after their defaults.
\<close>

definition acceptNode ::
  "(jsstring \<Rightarrow> jsstring) \<Rightarrow> bool \<Rightarrow> int \<Rightarrow> (jsstring \<times> bool) option \<Rightarrow> jsstring \<Rightarrow> NodeFilter"
where
  "acceptNode lower excl_hidden min_length parent data =
     (case parent of
        None \<Rightarrow> FILTER_ACCEPT
      | Some (tagName, hidden) \<Rightarrow>
          if lower tagName \<in> EXCLUDED_TAGS then FILTER_REJECT
          else if excl_hidden \<and> hidden then FILTER_REJECT
          else let content = trim data
               in if int (length content) < min_length then FILTER_SKIP
                  else FILTER_ACCEPT)"

text \<open>
  The walker shows text nodes only (\<open>NodeFilter.SHOW_TEXT\<close>): an element is never
  handed to the filter and is always descended into, and \<open>nextNode()\<close> returns, in
  document order, the text nodes below the root that the filter accepts. A text node
  has no children, so a rejected and a skipped one are both just left out.
\<close>

fun walk ::
  "(jsstring \<Rightarrow> jsstring) \<Rightarrow> bool \<Rightarrow> int \<Rightarrow> (jsstring \<times> bool) option \<Rightarrow> node
   \<Rightarrow> (nat \<times> jsstring) list"
where
  "walk lower eh mcl parent (Text i s) =
     (if acceptNode lower eh mcl parent s = FILTER_ACCEPT then [(i, s)] else [])"
| "walk lower eh mcl parent (Elem i tag hl hid kids) =
     concat (map (walk lower eh mcl (Some (tag, hid))) kids)"

fun walker_nodes ::
  "(jsstring \<Rightarrow> jsstring) \<Rightarrow> bool \<Rightarrow> int \<Rightarrow> node \<Rightarrow> (nat \<times> jsstring) list" where
  "walker_nodes lower eh mcl (Text i s) = []"
| "walker_nodes lower eh mcl (Elem i tag hl hid kids) =
     concat (map (walk lower eh mcl (Some (tag, hid))) kids)"

text \<open>The \<open>while (walker.nextNode())\<close> loop, with its running \<open>offset\<close>.\<close>

fun push_entries :: "int \<Rightarrow> (nat \<times> jsstring) list \<Rightarrow> TextNodeEntry list" where
  "push_entries offset [] = []"
| "push_entries offset ((node, text) # rest) =
     \<lparr>t_node = node, t_start = offset, t_end = offset + int (length text)\<rparr>
       # push_entries (offset + int (length text)) rest"

definition getTextNodes ::
  "(jsstring \<Rightarrow> jsstring) \<Rightarrow> node \<Rightarrow> GetTextNodesOptions \<Rightarrow> TextNodeEntry list \<times> jsstring"
where
  "getTextNodes lower root options =
     (let eh = (case excludeHidden options of None \<Rightarrow> True | Some b \<Rightarrow> b);
          mcl = (case minContentLength options of None \<Rightarrow> 1 | Some n \<Rightarrow> n);
          accepted = walker_nodes lower eh mcl root;
          texts = push_entries 0 accepted
      in (texts, concat (map (\<lambda>(node, text). lower text) accepted)))"

section \<open>The selection\<close>

record Range =
  startContainer :: nat
  startOffset :: int
  endContainer :: nat
  endOffset :: int

text \<open>
  What \<open>window.getSelection()\<close> returns, or \<open>None\<close> for \<open>null\<close>: the string that
  \<open>toString()\<close> gives and the ranges (\<open>rangeCount\<close> is their number). The containers are
  node identities.
\<close>

record Selection =
  sel_toString :: jsstring
  sel_ranges :: "Range list"

definition getSelectedText :: "(jsstring \<Rightarrow> jsstring) \<Rightarrow> Selection option \<Rightarrow> jsstring" where
  "getSelectedText lower selection =
     (case selection of None \<Rightarrow> [] | Some sel \<Rightarrow> lower (trim (sel_toString sel)))"

definition findGlobalOffset :: "TextNodeEntry list \<Rightarrow> nat \<Rightarrow> int \<Rightarrow> int" where
  "findGlobalOffset texts node offset =
     (case find (\<lambda>t. t_node t = node) texts of
        Some entry \<Rightarrow> t_start entry + offset
      | None \<Rightarrow> -1)"

definition isInSelection :: "MatchRange \<Rightarrow> TextNodeEntry list \<Rightarrow> Selection option \<Rightarrow> bool" where
  "isInSelection match texts selection =
     (case selection of
        None \<Rightarrow> False
      | Some sel \<Rightarrow>
          (case sel_ranges sel of
             [] \<Rightarrow> False
           | range0 # _ \<Rightarrow>
               let selStart = findGlobalOffset texts (startContainer range0) (startOffset range0);
                   selEnd = findGlobalOffset texts (endContainer range0) (endOffset range0)
               in if selStart = -1 \<or> selEnd = -1 then False
                  else (m_start match \<ge> selStart \<and> m_end match \<le> selEnd)
                     \<or> (m_start match < selEnd \<and> m_end match > selStart)))"

section \<open>Removing the markers: \<open>removeHighlights\<close>\<close>

text \<open>
  \<open>document.querySelectorAll(".highlight")\<close>, in document order: every element below the
  root that matches the selector, also one nested in another.
\<close>

fun highlights :: "node \<Rightarrow> node list" where
  "highlights (Text i s) = []"
| "highlights (Elem i tag hl hid kids) =
     (if hl then [Elem i tag hl hid kids] else []) @ concat (map highlights kids)"

definition querySelectorAll_highlight :: "node \<Rightarrow> node list" where
  "querySelectorAll_highlight root = concat (map highlights (children root))"

text \<open>
  \<open>removeHighlights\<close> replaces each of them, in its parent, by a new text node holding the
  element's \<open>textContent\<close>. An element nested in an already replaced one is replaced
  inside the detached subtree only, which the document no longer shows; so in the
  document every outermost match becomes one text node.
\<close>

fun removeHighlights_node :: "node \<Rightarrow> nat \<Rightarrow> node \<times> nat"
  and removeHighlights_list :: "node list \<Rightarrow> nat \<Rightarrow> node list \<times> nat" where
  "removeHighlights_node (Text i s) n = (Text i s, n)"
| "removeHighlights_node (Elem i tag hl hid kids) n =
     (if hl then (Text n (textContent (Elem i tag hl hid kids)), Suc n)
      else (case removeHighlights_list kids n of
              (kids', n') \<Rightarrow> (Elem i tag hl hid kids', n')))"
| "removeHighlights_list [] n = ([], n)"
| "removeHighlights_list (k # ks) n =
     (case removeHighlights_node k n of
        (k', n1) \<Rightarrow> (case removeHighlights_list ks n1 of
                       (ks', n2) \<Rightarrow> (k' # ks', n2)))"

fun removeHighlights :: "dom \<Rightarrow> dom" where
  "removeHighlights (Text i s, n) = (Text i s, n)"
| "removeHighlights (Elem i tag hl hid kids, n) =
     (case removeHighlights_list kids n of (kids', n') \<Rightarrow> (Elem i tag hl hid kids', n'))"

section \<open>The splice engine: \<open>highlightMatches\<close>\<close>

datatype dom_error = IndexSizeError | NotInTree

text \<open>
  \<open>Text.splitText(offset)\<close> of the DOM standard: the offset is converted to an
  \<open>unsigned long\<close>; if it exceeds the node's length an \<open>IndexSizeError\<close> is thrown;
  otherwise the node keeps the data before the offset, and a new text node with the
  data from the offset on is inserted into the parent as the node's next sibling
  (whatever its length, so also when it is empty) and returned.
\<close>

definition splitText :: "nat \<Rightarrow> int \<Rightarrow> dom \<Rightarrow> dom_error + (nat \<times> dom)" where
  "splitText i offset d =
     (case d of (root, n) \<Rightarrow>
        (case text_data root i of
           None \<Rightarrow> Inl NotInTree
         | Some s \<Rightarrow>
             let off = offset mod 2 ^ 32
             in if off > int (length s) then Inl IndexSizeError
                else Inr (n, (replace_in root i
                                [Text i (take (nat off) s), Text n (drop (nat off) s)],
                              Suc n))))"

text \<open>
  \<open>this.after(moved)\<close>: \<open>moved\<close> is taken out of its parent and inserted as the next
  sibling of \<open>this\<close>. (Used with a text node \<open>moved\<close> that is not inside \<open>this\<close>.)
\<close>

definition after :: "node \<Rightarrow> nat \<Rightarrow> nat \<Rightarrow> node" where
  "after root this moved =
     (case (lookup root this, lookup root moved) of
        (Some t, Some m) \<Rightarrow> replace_in (replace_in root moved []) this [t, m]
      | _ \<Rightarrow> root)"

definition createSpanElement :: "nat \<Rightarrow> node" where
  \<comment> \<open>a new \<open>span\<close> with \<open>className = "highlight"\<close> and \<open>display: inline\<close>, without children\<close>
  "createSpanElement i = Elem i (js ''SPAN'') True False []"

fun appendChild :: "node \<Rightarrow> node \<Rightarrow> node" where
  "appendChild (Elem i tag hl hid kids) child = Elem i tag hl hid (kids @ [child])"
| "appendChild (Text i s) child = Text i s"

text \<open>
  The body of \<open>nodeMatches.reverse().forEach\<close>: two splits, a new marker around a
  clone of the middle part put in the middle part's place, and the conditional
  \<open>span.after(highlighted)\<close>.
\<close>

definition highlight_one :: "nat \<Rightarrow> MatchRange \<Rightarrow> dom \<Rightarrow> dom_error + dom" where
  "highlight_one node match d =
     (case splitText node (m_start match) d of
        Inl e \<Rightarrow> Inl e
      | Inr (pre, d1) \<Rightarrow>
          (case splitText pre (m_end match - m_start match) d1 of
             Inl e \<Rightarrow> Inl e
           | Inr (highlighted, (root2, n2)) \<Rightarrow>
               (case (text_data root2 pre, text_data root2 highlighted) of
                  (Some pre_data, Some highlighted_data) \<Rightarrow>
                    let span = appendChild (createSpanElement n2) (Text (Suc n2) pre_data);
                        root3 = replace_in root2 pre [span];
                        root4 = (if highlighted_data \<noteq> [] then after root3 n2 highlighted
                                 else root3)
                    in Inr (root4, Suc (Suc n2))
                | _ \<Rightarrow> Inl NotInTree)))"

fun highlight_all :: "nat \<Rightarrow> MatchRange list \<Rightarrow> dom \<Rightarrow> dom_error + dom" where
  "highlight_all node [] d = Inr d"
| "highlight_all node (match # rest) d =
     (case highlight_one node match d of
        Inl e \<Rightarrow> Inl e
      | Inr d' \<Rightarrow> highlight_all node rest d')"

text \<open>
  The inner \<open>while\<close> loop that collects \<open>nodeMatches\<close> for one entry. Its argument is
  \<open>sortedMatches\<close> from \<open>currentMatchIndex\<close> on; it returns \<open>nodeMatches\<close> and by how
  much \<open>currentMatchIndex\<close> has advanced. \<open>len\<close> is \<open>nodeContent.length\<close>.
\<close>

fun collect_nodeMatches :: "TextNodeEntry \<Rightarrow> int \<Rightarrow> MatchRange list \<Rightarrow> MatchRange list \<times> nat"
where
  "collect_nodeMatches entry len [] = ([], 0)"
| "collect_nodeMatches entry len (match # rest) =
     (let matchStart = m_start match - t_start entry;
          matchEnd = m_end match - t_start entry
      in if m_start match \<ge> t_start entry \<and> m_end match \<le> t_end entry
         then (case collect_nodeMatches entry len rest of
                 (nodeMatches, k) \<Rightarrow>
                   (\<lparr>m_start = max 0 matchStart, m_end = min len matchEnd\<rparr> # nodeMatches,
                    Suc k))
         else if m_start match < t_end entry \<and> m_end match > t_start entry
         then ([\<lparr>m_start = max 0 (m_start match - t_start entry),
                  m_end = min len (m_end match - t_start entry)\<rparr>], 0)
         else ([], 0))"

text \<open>\<open>texts.forEach\<close>, with \<open>currentMatchIndex\<close> carried from entry to entry.\<close>

fun forEach_entry ::
  "TextNodeEntry list \<Rightarrow> MatchRange list \<Rightarrow> nat \<Rightarrow> dom \<Rightarrow> dom_error + dom" where
  "forEach_entry [] sortedMatches currentMatchIndex d = Inr d"
| "forEach_entry (entry # rest) sortedMatches currentMatchIndex d =
     (case text_data (fst d) (t_node entry) of
        None \<Rightarrow> Inl NotInTree
      | Some nodeContent \<Rightarrow>
          (case collect_nodeMatches entry (int (length nodeContent))
                  (drop currentMatchIndex sortedMatches) of
             (nodeMatches, k) \<Rightarrow>
               (case (if nodeMatches \<noteq> [] then highlight_all (t_node entry) (rev nodeMatches) d
                      else Inr d) of
                  Inl e \<Rightarrow> Inl e
                | Inr d' \<Rightarrow> forEach_entry rest sortedMatches (currentMatchIndex + k) d')))"

definition highlightMatches :: "TextNodeEntry list \<Rightarrow> MatchRange list \<Rightarrow> dom \<Rightarrow> dom_error + dom"
where
  "highlightMatches texts matches d = forEach_entry texts (sort_key m_start matches) 0 d"

section \<open>The controller: \<open>highlightNode\<close>\<close>

text \<open>
  The state a call works on: the document and the module variable
  \<open>lastSelectedText\<close>. \<open>highlightNode\<close> is modelled at its default root,
  \<open>document.body\<close>; the selection is what \<open>window.getSelection()\<close> returns once
  \<open>removeHighlights\<close> has run. A thrown exception is the result \<open>Inl\<close>.
\<close>

record page =
  doc :: node
  next_id :: nat
  lastSelectedText :: jsstring

definition highlightNode ::
  "(jsstring \<Rightarrow> jsstring) \<Rightarrow> Selection option \<Rightarrow> page \<Rightarrow> dom_error + page" where
  "highlightNode lower selection st =
     (case removeHighlights (doc st, next_id st) of
        (root, n) \<Rightarrow>
          let text = getSelectedText lower selection
          in if text \<noteq> [] \<and> text \<noteq> lastSelectedText st
             then (case getTextNodes lower root no_options of
                     (texts, mergedText) \<Rightarrow>
                       if texts \<noteq> [] \<and> text \<noteq> []
                       then let matches = findMatches mergedText text;
                                filteredMatches =
                                  filter (\<lambda>m. \<not> isInSelection m texts selection) matches
                            in (case highlightMatches texts filteredMatches (root, n) of
                                  Inl e \<Rightarrow> Inl e
                                | Inr (root', n') \<Rightarrow>
                                    Inr \<lparr>doc = root', next_id = n', lastSelectedText = text\<rparr>)
                       else Inr \<lparr>doc = root, next_id = n, lastSelectedText = text\<rparr>)
             else Inr \<lparr>doc = root, next_id = n, lastSelectedText = lastSelectedText st\<rparr>)"

section \<open>Well-formed documents and normalized content\<close>

text \<open>
  The identities of a subtree and its text nodes, in document order. In a well-formed
  document the identities are pairwise different and older than the next one to be
  handed out, and the data of a text node is shorter than \<open>2 ^ 32\<close> code units (its
  \<open>length\<close> is an \<open>unsigned long\<close>).
\<close>

fun node_ids :: "node \<Rightarrow> nat list" where
  "node_ids (Text i s) = [i]"
| "node_ids (Elem i tag hl hid kids) = i # concat (map node_ids kids)"

fun text_nodes :: "node \<Rightarrow> (nat \<times> jsstring) list" where
  "text_nodes (Text i s) = [(i, s)]"
| "text_nodes (Elem i tag hl hid kids) = concat (map text_nodes kids)"

definition well_formed :: "dom \<Rightarrow> bool" where
  "well_formed d =
     (case d of (root, n) \<Rightarrow>
        distinct (node_ids root)
      \<and> (\<forall>i \<in> set (node_ids root). i < n)
      \<and> (\<forall>(i, s) \<in> set (text_nodes root). length s < 2 ^ 32))"

text \<open>
  \<open>Node.normalize()\<close> removes the empty text nodes and joins adjacent text nodes.
  \<open>normalized root\<close> is the tree after it, without the identities: what the tree shows.
\<close>

datatype shape = SText jsstring | SElem jsstring bool bool "shape list"

fun join_text :: "jsstring \<Rightarrow> shape list \<Rightarrow> shape list" where
  "join_text s (SText t # r) = SText (s @ t) # r"
| "join_text s r = (if s = [] then r else SText s # r)"

fun normalize_list :: "node list \<Rightarrow> shape list" where
  "normalize_list [] = []"
| "normalize_list (Text i s # r) = join_text s (normalize_list r)"
| "normalize_list (Elem i tag hl hid kids # r) =
     SElem tag hl hid (normalize_list kids) # normalize_list r"

definition normalized :: "node \<Rightarrow> shape list" where
  "normalized root = normalize_list [root]"

section \<open>Notions used in the proofs about the splice engine\<close>

text \<open>
  \<open>flat_list\<close> is the normalized shape of a child list in which every marker counts as
  the text it wraps, and \<open>sole i s k\<close> says that the subtree \<open>k\<close> has no node with
  identity \<open>i\<close> other than the text node \<open>i\<close> with data \<open>s\<close>.
\<close>

fun flat_list :: "node list \<Rightarrow> shape list" where
  "flat_list [] = []"
| "flat_list (Text i s # r) = join_text s (flat_list r)"
| "flat_list (Elem i tag hl hid kids # r) =
     (if hl then join_text (concat (map textContent kids)) (flat_list r)
      else SElem tag hl hid (flat_list kids) # flat_list r)"

fun sole :: "nat \<Rightarrow> jsstring \<Rightarrow> node \<Rightarrow> bool" where
  "sole i s (Text j t) = (j = i \<longrightarrow> t = s)"
| "sole i s (Elem j tag hl hid kids) = (j \<noteq> i \<and> (\<forall>k \<in> set kids. sole i s k))"

text \<open>
  What one step of \<open>nodeMatches.reverse().forEach\<close> puts in the place of the text node
  \<open>i\<close> with data \<open>s\<close> for the local range \<open>[a, b)\<close>, and what the whole loop puts
  there for the ranges \<open>ms\<close> (rightmost first); \<open>fits len ms\<close> says that these ranges,
  taken from the right, lie in \<open>[0, len]\<close> one before the other.
\<close>

definition marker_seg :: "nat \<Rightarrow> jsstring \<Rightarrow> int \<Rightarrow> int \<Rightarrow> nat \<Rightarrow> node list" where
  "marker_seg i s a b n =
     [Text i (take (nat a) s),
      Elem (n + 2) (js ''SPAN'') True False [Text (n + 3) (take (nat (b - a)) (drop (nat a) s))],
      Text (n + 1) (drop (nat (b - a)) (drop (nat a) s))]"

fun fits :: "int \<Rightarrow> MatchRange list \<Rightarrow> bool" where
  "fits len [] = True"
| "fits len (m # rest) =
     (0 \<le> m_start m \<and> m_start m \<le> m_end m \<and> m_end m \<le> len \<and> fits (m_start m) rest)"

fun spliced :: "nat \<Rightarrow> jsstring \<Rightarrow> MatchRange list \<Rightarrow> nat \<Rightarrow> node list" where
  "spliced i s [] n = [Text i s]"
| "spliced i s (m # rest) n =
     spliced i (take (nat (m_start m)) s) rest (n + 4)
       @ tl (marker_seg i s (m_start m) (m_end m) n)"

text \<open>
  Ranges in ascending order that do not overlap: in logical coordinates from \<open>lo\<close> on,
  and in the local coordinates of a node of length \<open>len\<close>.
\<close>

fun nonoverlapping :: "int \<Rightarrow> MatchRange list \<Rightarrow> bool" where
  "nonoverlapping lo [] = True"
| "nonoverlapping lo (m # ms) =
     (lo \<le> m_start m \<and> m_start m \<le> m_end m \<and> nonoverlapping (m_end m) ms)"

fun ascending :: "int \<Rightarrow> int \<Rightarrow> MatchRange list \<Rightarrow> bool" where
  "ascending lo len [] = True"
| "ascending lo len (m # r) =
     (lo \<le> m_start m \<and> m_start m \<le> m_end m \<and> m_end m \<le> len \<and> ascending (m_end m) len r)"

text \<open>
  The data of the plain text leaves, in document order: the text nodes that are not
  inside a marker.
\<close>

fun plain_leaves :: "node \<Rightarrow> jsstring list" where
  "plain_leaves (Text i s) = [s]"
| "plain_leaves (Elem i tag hl hid kids) = (if hl then [] else concat (map plain_leaves kids))"

section \<open>Properties of the match engine\<close>

lemma scan_none: "indexOf_scan q t k = -1 \<longleftrightarrow> (\<forall>j \<le> length t. \<not> occurs_at t q j)"
proof (induction t arbitrary: k)
  case Nil
  then show ?case by (auto simp: occurs_at_def)
next
  case (Cons c t)
  have shift: "occurs_at (c # t) q (Suc j) = occurs_at t q j" for j
    by (simp add: occurs_at_def)
  have zero: "occurs_at (c # t) q 0 \<longleftrightarrow> take (length q) (c # t) = q"
    by (metis add_0 drop0 length_take min.absorb2 min.cobounded1 occurs_at_def nat_le_linear take_all)
  show ?case
  proof (cases "take (length q) (c # t) = q")
    case True
    then show ?thesis using zero by auto
  next
    case False
    have "(\<forall>j \<le> length (c # t). \<not> occurs_at (c # t) q j) \<longleftrightarrow> (\<forall>j \<le> length t. \<not> occurs_at t q j)"
    proof
      assume a: "\<forall>j \<le> length (c # t). \<not> occurs_at (c # t) q j"
      show "\<forall>j \<le> length t. \<not> occurs_at t q j"
      proof (intro allI impI)
        fix j assume "j \<le> length t"
        then have "Suc j \<le> length (c # t)" by simp
        with a have "\<not> occurs_at (c # t) q (Suc j)" by blast
        then show "\<not> occurs_at t q j" by (simp add: shift)
      qed
    next
      assume a: "\<forall>j \<le> length t. \<not> occurs_at t q j"
      show "\<forall>j \<le> length (c # t). \<not> occurs_at (c # t) q j"
      proof (intro allI impI)
        fix j assume j: "j \<le> length (c # t)"
        show "\<not> occurs_at (c # t) q j"
        proof (cases j)
          case 0
          then show ?thesis using False zero by simp
        next
          case (Suc j')
          with j a show ?thesis by (simp add: shift)
        qed
      qed
    qed
    with False Cons.IH [of "Suc k"] show ?thesis by simp
  qed
qed

lemma occurs_at_Cons: "occurs_at (c # t) q (Suc j) = occurs_at t q j"
  by (simp add: occurs_at_def)

lemma occurs_at_0: "occurs_at t q 0 \<longleftrightarrow> take (length q) t = q"
  by (metis add_0 drop0 length_take min.absorb2 min.cobounded1 occurs_at_def nat_le_linear take_all)

lemma scan_found:
  "indexOf_scan q t k \<noteq> -1 \<Longrightarrow>
   \<exists>i. indexOf_scan q t k = int (k + i) \<and> occurs_at t q i \<and> (\<forall>j < i. \<not> occurs_at t q j)"
proof (induction t arbitrary: k)
  case Nil
  then show ?case by (auto simp: occurs_at_def split: if_splits)
next
  case (Cons c t)
  show ?case
  proof (cases "take (length q) (c # t) = q")
    case True
    then have "indexOf_scan q (c # t) k = int (k + 0)" "occurs_at (c # t) q 0"
      by (simp_all add: occurs_at_0)
    then show ?thesis by blast
  next
    case False
    with Cons.prems have "indexOf_scan q t (Suc k) \<noteq> -1" by simp
    from Cons.IH [OF this] obtain i where
      i: "indexOf_scan q t (Suc k) = int (Suc k + i)" "occurs_at t q i" "\<forall>j < i. \<not> occurs_at t q j"
      by blast
    have "\<not> occurs_at (c # t) q j" if "j < Suc i" for j
    proof (cases j)
      case 0
      then show ?thesis using False by (simp add: occurs_at_0)
    next
      case (Suc j')
      with that i(3) show ?thesis by (simp add: occurs_at_Cons)
    qed
    with i(1,2) False have "indexOf_scan q (c # t) k = int (k + Suc i)"
      "occurs_at (c # t) q (Suc i)" "\<forall>j < Suc i. \<not> occurs_at (c # t) q j"
      by (simp_all add: occurs_at_Cons)
    then show ?thesis by blast
  qed
qed

lemma occurs_at_drop: "p \<le> length s \<Longrightarrow> occurs_at (drop p s) q i = occurs_at s q (p + i)"
  by (auto simp: occurs_at_def add.commute)

lemma indexOf_none:
  assumes "0 \<le> index" "indexOf s q index = -1"
  shows "\<forall>j \<in> {nat index..length s}. \<not> occurs_at s q j"
proof
  fix j assume j: "j \<in> {nat index..length s}"
  define p where "p = nat (min (max index 0) (int (length s)))"
  from j assms(1) have p: "p = nat index" "p \<le> length s" by (auto simp: p_def)
  from assms(2) have "indexOf_scan q (drop p s) p = -1"
    by (simp add: indexOf_def p_def Let_def)
  then have "\<forall>i \<le> length (drop p s). \<not> occurs_at (drop p s) q i"
    by (simp add: scan_none)
  moreover from j p have "j - p \<le> length (drop p s)" by (simp add: diff_le_mono)
  ultimately have "\<not> occurs_at (drop p s) q (j - p)" by blast
  with p j show "\<not> occurs_at s q j" by (simp add: occurs_at_drop)
qed

lemma indexOf_found:
  assumes "0 \<le> index" "indexOf s q index \<noteq> -1" "q \<noteq> []"
  shows "\<exists>i. indexOf s q index = int i \<and> nat index \<le> i \<and> occurs_at s q i
             \<and> (\<forall>j \<in> {nat index..<i}. \<not> occurs_at s q j)"
proof -
  define p where "p = nat (min (max index 0) (int (length s)))"
  have ple: "p \<le> length s" by (simp add: p_def)
  from assms(2) have ne: "indexOf_scan q (drop p s) p \<noteq> -1"
    by (simp add: indexOf_def p_def Let_def)
  from scan_found [OF ne] obtain i where
    i: "indexOf_scan q (drop p s) p = int (p + i)" "occurs_at (drop p s) q i"
       "\<forall>j < i. \<not> occurs_at (drop p s) q j"
    by blast
  have r: "indexOf s q index = int (p + i)"
    using i(1) by (simp add: indexOf_def p_def Let_def)
  have occ: "occurs_at s q (p + i)"
    using i(2) ple by (simp add: occurs_at_drop)
  show ?thesis
  proof (cases "nat index \<le> length s")
    case True
    with assms(1) have pi: "p = nat index" by (auto simp: p_def)
    have "\<not> occurs_at s q j" if "j \<in> {nat index..<p + i}" for j
    proof -
      from that pi have "j - p < i" "j = p + (j - p)" by auto
      with i(3) ple show ?thesis by (metis occurs_at_drop)
    qed
    with r occ pi show ?thesis by (intro exI [of _ "p + i"]) auto
  next
    case False
    with assms(1) have pl: "p = length s" by (auto simp: p_def)
    with occ have "length q = 0" by (simp add: occurs_at_def)
    with assms(3) show ?thesis by simp
  qed
qed

declare findMatches_loop.simps [simp del]

lemma loop_acc_aux:
  fixes acc :: "MatchRange list"
  shows "findMatches_loop s q index acc' = acc' @ findMatches_loop s q index []"
proof (induction s q index acc arbitrary: acc' rule: findMatches_loop.induct)
  case (1 s q index acc)
  define i where "i = indexOf s q index"
  show ?case
  proof (cases "i \<noteq> -1 \<and> q \<noteq> []")
    case True
    let ?m = "\<lparr>m_start = i, m_end = i + int (length q)\<rparr>"
    have "findMatches_loop s q index acc' = findMatches_loop s q (i + int (length q)) (acc' @ [?m])"
      using True by (subst findMatches_loop.simps) (simp add: i_def Let_def)
    also have "\<dots> = (acc' @ [?m]) @ findMatches_loop s q (i + int (length q)) []"
      using "1.IH" [OF i_def True] .
    also have "\<dots> = acc' @ findMatches_loop s q (i + int (length q)) [?m]"
      using "1.IH" [OF i_def True, of "[?m]"] by simp
    also have "findMatches_loop s q (i + int (length q)) [?m] = findMatches_loop s q index []"
      using True by (subst (2) findMatches_loop.simps) (simp add: i_def Let_def)
    finally show ?thesis .
  next
    case False
    then show ?thesis
      by (subst findMatches_loop.simps, subst (2) findMatches_loop.simps) (auto simp: i_def Let_def)
  qed
qed

lemma loop_step:
  assumes "indexOf s q index = i" "i \<noteq> -1" "q \<noteq> []"
  shows "findMatches_loop s q index [] =
         \<lparr>m_start = i, m_end = i + int (length q)\<rparr> # findMatches_loop s q (i + int (length q)) []"
  using assms
  by (subst findMatches_loop.simps, subst loop_acc_aux) (simp add: Let_def)

lemma loop_stop:
  assumes "indexOf s q index = -1"
  shows "findMatches_loop s q index [] = []"
  using assms by (subst findMatches_loop.simps) (simp add: Let_def)

lemma loop_spec:
  fixes acc :: "MatchRange list"
  shows "q \<noteq> [] \<Longrightarrow> 0 \<le> index \<Longrightarrow>
         spec_leftmost_first s q (nat index) (findMatches_loop s q index [])"
proof (induction s q index acc rule: findMatches_loop.induct)
  case (1 s q index acc)
  define i where "i = indexOf s q index"
  show ?case
  proof (cases "i = -1")
    case True
    then show ?thesis
      using indexOf_none [OF "1.prems"(2)] by (simp add: loop_stop i_def)
  next
    case False
    from indexOf_found [OF "1.prems"(2) _ "1.prems"(1)] False obtain k where
      k: "i = int k" "nat index \<le> k" "occurs_at s q k"
         "\<forall>j \<in> {nat index..<k}. \<not> occurs_at s q j"
      unfolding i_def by blast
    have "spec_leftmost_first s q (nat (i + int (length q)))
            (findMatches_loop s q (i + int (length q)) [])"
      using "1.IH" [OF i_def _ "1.prems"(1)] False "1.prems"(1) k(1) by simp
    with k show ?thesis
      using loop_step [OF i_def [symmetric] False "1.prems"(1)] by simp
  qed
qed

lemma spec_leftmost_first_sorted:
  "spec_leftmost_first s q p ms \<Longrightarrow> i < j \<Longrightarrow> j < length ms \<Longrightarrow>
   int p \<le> m_start (ms ! i) \<and> m_end (ms ! i) \<le> m_start (ms ! j)"
proof (induction ms arbitrary: p i j)
  case Nil
  then show ?case by simp
next
  case (Cons m ms)
  from Cons.prems(1) have m: "0 \<le> m_start m" "p \<le> nat (m_start m)"
    "m_end m = m_start m + int (length q)" "spec_leftmost_first s q (nat (m_end m)) ms"
    by auto
  from Cons.prems obtain j' where j': "j = Suc j'" "j' < length ms" by (cases j) auto
  show ?case
  proof (cases i)
    case 0
    have "int (nat (m_end m)) \<le> m_start (ms ! j')"
    proof (cases j')
      case 0
      with m(4) j'(2) show ?thesis by (cases ms) auto
    next
      case (Suc j'')
      from Cons.IH [OF m(4), of 0 j'] Suc j'(2)
      have "m_end (ms ! 0) \<le> m_start (ms ! j')" "int (nat (m_end m)) \<le> m_start (ms ! 0)" by simp_all
      moreover from m(4) j'(2) have "m_start (ms ! 0) \<le> m_end (ms ! 0)" by (cases ms) auto
      ultimately show ?thesis by linarith
    qed
    with 0 j' m show ?thesis by simp
  next
    case (Suc i')
    with Cons.prems j' have "i' < j'" by simp
    from Cons.IH [OF m(4) this j'(2)]
    have ih: "int (nat (m_end m)) \<le> m_start (ms ! i')" "m_end (ms ! i') \<le> m_start (ms ! j')"
      by simp_all
    from m(1,2) have "int p \<le> m_start m" by linarith
    with ih(1) m(3) have "int p \<le> m_start (ms ! i')" by linarith
    with ih(2) Suc j' show ?thesis by simp
  qed
qed

text \<open>
  Claim C3. For every logical string \<open>s\<close> and every non-empty query \<open>q\<close>,
  \<open>findMatches s q\<close> is what the left-to-right scan records: each range is the first
  occurrence of \<open>q\<close> at or after the point where the scan resumed, it is recorded as
  \<open>{i, i + len q}\<close>, the scan resumes at \<open>i + len q\<close>, and nothing occurs after the last
  range. Hence any two returned ranges are disjoint, and
  \<open>findMatches "aaa" "aa"\<close> is the single range \<open>[0, 2]\<close>.
\<close>

theorem findMatches_leftmost_first_nonoverlapping:
  assumes "q \<noteq> []"
  shows "spec_leftmost_first s q 0 (findMatches s q)
       \<and> (\<forall>i < length (findMatches s q). \<forall>j < length (findMatches s q). i \<noteq> j \<longrightarrow>
            m_end (findMatches s q ! i) \<le> m_start (findMatches s q ! j)
          \<or> m_end (findMatches s q ! j) \<le> m_start (findMatches s q ! i))
       \<and> findMatches (js ''aaa'') (js ''aa'') = [\<lparr>m_start = 0, m_end = 2\<rparr>]"
proof -
  have sp: "spec_leftmost_first s q 0 (findMatches s q)"
    using loop_spec [OF assms, of 0 s] assms by (simp add: findMatches_def)
  have no: "m_end (findMatches s q ! i) \<le> m_start (findMatches s q ! j)
          \<or> m_end (findMatches s q ! j) \<le> m_start (findMatches s q ! i)"
    if "i < length (findMatches s q)" "j < length (findMatches s q)" "i \<noteq> j" for i j
  proof (cases "i < j")
    case True
    from spec_leftmost_first_sorted [OF sp True that(2)] show ?thesis by simp
  next
    case False
    with that(3) have "j < i" by simp
    from spec_leftmost_first_sorted [OF sp this that(1)] show ?thesis by simp
  qed
  have ex: "findMatches (js ''aaa'') (js ''aa'') = [\<lparr>m_start = 0, m_end = 2\<rparr>]"
    by (simp add: findMatches_def js_def findMatches_loop.simps indexOf_def Let_def)
  from sp no ex show ?thesis by blast
qed

theorem findMatches_leftmost_first_witness:
  "js ''aa'' \<noteq> [] \<and> spec_leftmost_first (js ''aaa'') (js ''aa'') 0 [\<lparr>m_start = 0, m_end = 2\<rparr>]"
  using findMatches_leftmost_first_nonoverlapping [of "js ''aa''" "js ''aaa''"]
  by (simp add: js_def occurs_at_def)

section \<open>Properties of the selection test\<close>

text \<open>
  Claim C5. When both end points of the selection map to entries, so that the selection
  has the logical coordinates \<open>selStart = start + startOffset\<close> and
  \<open>selEnd = start + endOffset\<close>, \<open>isInSelection\<close> is true exactly when the match is
  contained in \<open>[selStart, selEnd]\<close> or overlaps it under strict inequalities; so no
  match contained in the selection is left in the filtered list that \<open>highlightNode\<close>
  hands to \<open>highlightMatches\<close>.
\<close>

theorem isInSelection_mappable:
  assumes "sel_ranges sel = r # rs"
    and "find (\<lambda>t. t_node t = startContainer r) texts = Some es"
    and "find (\<lambda>t. t_node t = endContainer r) texts = Some ee"
    and "0 \<le> t_start es + startOffset r" and "0 \<le> t_start ee + endOffset r"
  shows "(isInSelection m texts (Some sel) \<longleftrightarrow>
            (m_start m \<ge> t_start es + startOffset r \<and> m_end m \<le> t_start ee + endOffset r)
          \<or> (m_start m < t_start ee + endOffset r \<and> m_end m > t_start es + startOffset r))
       \<and> (\<forall>m' \<in> set (filter (\<lambda>m. \<not> isInSelection m texts (Some sel)) matches).
             \<not> (t_start es + startOffset r \<le> m_start m' \<and> m_end m' \<le> t_start ee + endOffset r))"
  using assms by (auto simp: isInSelection_def findGlobalOffset_def Let_def)

theorem isInSelection_mappable_witness:
  "isInSelection \<lparr>m_start = 0, m_end = 2\<rparr> [\<lparr>t_node = 2, t_start = 0, t_end = 5\<rparr>]
     (Some \<lparr>sel_toString = js ''ab'',
            sel_ranges = [\<lparr>startContainer = 2, startOffset = 0, endContainer = 2, endOffset = 2\<rparr>]\<rparr>)
   \<and> filter (\<lambda>m. \<not> isInSelection m [\<lparr>t_node = 2, t_start = 0, t_end = 5\<rparr>]
        (Some \<lparr>sel_toString = js ''ab'',
               sel_ranges = [\<lparr>startContainer = 2, startOffset = 0, endContainer = 2, endOffset = 2\<rparr>]\<rparr>))
       [\<lparr>m_start = 0, m_end = 2\<rparr>, \<lparr>m_start = 3, m_end = 5\<rparr>]
     = [\<lparr>m_start = 3, m_end = 5\<rparr>]"
  using isInSelection_mappable
    [of "\<lparr>sel_toString = js ''ab'',
          sel_ranges = [\<lparr>startContainer = 2, startOffset = 0, endContainer = 2, endOffset = 2\<rparr>]\<rparr>"
        "\<lparr>startContainer = 2, startOffset = 0, endContainer = 2, endOffset = 2\<rparr>" "[]"
        "[\<lparr>t_node = 2, t_start = 0, t_end = 5\<rparr>]" "\<lparr>t_node = 2, t_start = 0, t_end = 5\<rparr>"
        "\<lparr>t_node = 2, t_start = 0, t_end = 5\<rparr>"]
  by simp

lemma find_absent:
  "c \<notin> t_node ` set texts \<Longrightarrow> find (\<lambda>t. t_node t = c) texts = None"
  by (induction texts) auto

lemma isInSelection_find_None:
  assumes "sel_ranges sel = r # rs"
    and "find (\<lambda>t. t_node t = startContainer r) texts = None
      \<or> find (\<lambda>t. t_node t = endContainer r) texts = None"
  shows "\<not> isInSelection m' texts (Some sel)"
  using assms unfolding isInSelection_def findGlobalOffset_def Let_def
  by (auto split: option.splits)

text \<open>
  Claim C9. When the start or the end container of the selection's range is not the
  node of any entry, \<open>isInSelection\<close> is false for every match, and the filter of
  \<open>highlightNode\<close> keeps every match.
\<close>

theorem isInSelection_unmappable:
  assumes "sel_ranges sel = r # rs"
    and "startContainer r \<notin> t_node ` set texts \<or> endContainer r \<notin> t_node ` set texts"
  shows "\<not> isInSelection m texts (Some sel)
       \<and> filter (\<lambda>m. \<not> isInSelection m texts (Some sel)) matches = matches"
proof -
  from assms(2) have "find (\<lambda>t. t_node t = startContainer r) texts = None
      \<or> find (\<lambda>t. t_node t = endContainer r) texts = None"
  proof
    assume "startContainer r \<notin> t_node ` set texts"
    then show ?thesis by (simp add: find_absent)
  next
    assume "endContainer r \<notin> t_node ` set texts"
    then show ?thesis by (simp add: find_absent)
  qed
  then have no: "\<not> isInSelection m' texts (Some sel)" for m'
    using isInSelection_find_None [OF assms(1)] by blast
  have "filter (\<lambda>m. \<not> isInSelection m texts (Some sel)) matches = matches"
    by (rule filter_True) (simp add: no)
  with no show ?thesis by blast
qed

theorem isInSelection_unmappable_witness:
  "\<not> isInSelection \<lparr>m_start = 0, m_end = 2\<rparr> [\<lparr>t_node = 2, t_start = 0, t_end = 5\<rparr>]
       (Some \<lparr>sel_toString = js ''ab'',
              sel_ranges = [\<lparr>startContainer = 1, startOffset = 0, endContainer = 2, endOffset = 2\<rparr>]\<rparr>)
   \<and> filter (\<lambda>m. \<not> isInSelection m [\<lparr>t_node = 2, t_start = 0, t_end = 5\<rparr>]
        (Some \<lparr>sel_toString = js ''ab'',
               sel_ranges = [\<lparr>startContainer = 1, startOffset = 0, endContainer = 2, endOffset = 2\<rparr>]\<rparr>))
       [\<lparr>m_start = 0, m_end = 2\<rparr>, \<lparr>m_start = 3, m_end = 5\<rparr>]
     = [\<lparr>m_start = 0, m_end = 2\<rparr>, \<lparr>m_start = 3, m_end = 5\<rparr>]"
  using isInSelection_unmappable
    [of "\<lparr>sel_toString = js ''ab'',
          sel_ranges = [\<lparr>startContainer = 1, startOffset = 0, endContainer = 2, endOffset = 2\<rparr>]\<rparr>"
        "\<lparr>startContainer = 1, startOffset = 0, endContainer = 2, endOffset = 2\<rparr>" "[]"
        "[\<lparr>t_node = 2, t_start = 0, t_end = 5\<rparr>]" "\<lparr>m_start = 0, m_end = 2\<rparr>"
        "[\<lparr>m_start = 0, m_end = 2\<rparr>, \<lparr>m_start = 3, m_end = 5\<rparr>]"]
  by (simp del: filter.simps)

section \<open>Properties of the controller\<close>

lemma removeHighlights_clears:
  "highlights (fst (removeHighlights_node k n)) = []"
  "concat (map highlights (fst (removeHighlights_list ks n))) = []"
  by (induction k n and ks n rule: removeHighlights_node_removeHighlights_list.induct)
     (auto split: prod.splits)

lemma removeHighlights_unmarked:
  "highlights k = [] \<Longrightarrow> removeHighlights_node k n = (k, n)"
  "concat (map highlights ks) = [] \<Longrightarrow> removeHighlights_list ks n = (ks, n)"
  by (induction k n and ks n rule: removeHighlights_node_removeHighlights_list.induct)
     (auto split: prod.splits if_splits)

lemma querySelectorAll_removeHighlights:
  "querySelectorAll_highlight (fst (removeHighlights d)) = []"
proof (cases d)
  case (Pair root n)
  show ?thesis
  proof (cases root)
    case (Text i s)
    with Pair show ?thesis by (simp add: querySelectorAll_highlight_def)
  next
    case (Elem i tag hl hid kids)
    obtain kids' n' where k: "removeHighlights_list kids n = (kids', n')"
      by (cases "removeHighlights_list kids n")
    with removeHighlights_clears(2) [of kids n] have "concat (map highlights kids') = []"
      by simp
    with Pair Elem k show ?thesis by (simp add: querySelectorAll_highlight_def)
  qed
qed

lemma removeHighlights_id:
  "querySelectorAll_highlight root = [] \<Longrightarrow> removeHighlights (root, n) = (root, n)"
  using removeHighlights_unmarked(2)
  by (cases root) (auto simp: querySelectorAll_highlight_def split: prod.splits)

text \<open>
  Claim C10. A call of \<open>highlightNode\<close> with an empty selection text returns, leaves no
  marker in the document, and keeps \<open>lastSelectedText\<close>; a call that follows it with a
  selection text equal to that tracked text changes nothing, so the document stays
  without markers.
\<close>

theorem empty_selection_clears_and_keeps_tracked_text:
  assumes "getSelectedText lower sel = []"
  shows "\<exists>st1. highlightNode lower sel st = Inr st1
          \<and> querySelectorAll_highlight (doc st1) = []
          \<and> lastSelectedText st1 = lastSelectedText st
          \<and> (\<forall>sel2. getSelectedText lower sel2 = lastSelectedText st \<longrightarrow>
                highlightNode lower sel2 st1 = Inr st1)"
proof -
  obtain root n where rh: "removeHighlights (doc st, next_id st) = (root, n)"
    by (cases "removeHighlights (doc st, next_id st)")
  define st1 where "st1 = \<lparr>doc = root, next_id = n, lastSelectedText = lastSelectedText st\<rparr>"
  have 1: "highlightNode lower sel st = Inr st1"
    using assms rh by (simp add: highlightNode_def st1_def)
  have 2: "querySelectorAll_highlight (doc st1) = []"
    using querySelectorAll_removeHighlights [of "(doc st, next_id st)"] rh by (simp add: st1_def)
  have 3: "lastSelectedText st1 = lastSelectedText st" by (simp add: st1_def)
  have 4: "highlightNode lower sel2 st1 = Inr st1"
    if "getSelectedText lower sel2 = lastSelectedText st" for sel2
  proof -
    have "removeHighlights (doc st1, next_id st1) = (root, n)"
      using removeHighlights_id [OF 2, of "next_id st1"] by (simp add: st1_def)
    with that show ?thesis by (simp add: highlightNode_def st1_def)
  qed
  from 1 2 3 4 show ?thesis by blast
qed

theorem empty_selection_clears_and_keeps_tracked_text_witness:
  "getSelectedText toLowerCase None = []
   \<and> highlightNode toLowerCase None
        \<lparr>doc = Elem 0 (js ''BODY'') False False
                 [Elem 1 (js ''P'') False False
                    [Text 2 (js ''ab ''), Elem 5 (js ''SPAN'') True False [Text 6 (js ''ab'')],
                     Text 4 []]],
         next_id = 7, lastSelectedText = js ''ab''\<rparr>
     = Inr \<lparr>doc = Elem 0 (js ''BODY'') False False
                   [Elem 1 (js ''P'') False False
                      [Text 2 (js ''ab ''), Text 7 (js ''ab''), Text 4 []]],
            next_id = 8, lastSelectedText = js ''ab''\<rparr>
   \<and> highlightNode toLowerCase
        (Some \<lparr>sel_toString = js ''ab'',
               sel_ranges = [\<lparr>startContainer = 2, startOffset = 0,
                              endContainer = 2, endOffset = 2\<rparr>]\<rparr>)
        \<lparr>doc = Elem 0 (js ''BODY'') False False
                 [Elem 1 (js ''P'') False False
                    [Text 2 (js ''ab ''), Text 7 (js ''ab''), Text 4 []]],
         next_id = 8, lastSelectedText = js ''ab''\<rparr>
     = Inr \<lparr>doc = Elem 0 (js ''BODY'') False False
                   [Elem 1 (js ''P'') False False
                      [Text 2 (js ''ab ''), Text 7 (js ''ab''), Text 4 []]],
            next_id = 8, lastSelectedText = js ''ab''\<rparr>"
proof -
  let ?st = "\<lparr>doc = Elem 0 (js ''BODY'') False False
                 [Elem 1 (js ''P'') False False
                    [Text 2 (js ''ab ''), Elem 5 (js ''SPAN'') True False [Text 6 (js ''ab'')],
                     Text 4 []]],
         next_id = 7, lastSelectedText = js ''ab''\<rparr>"
  let ?st1 = "\<lparr>doc = Elem 0 (js ''BODY'') False False
                   [Elem 1 (js ''P'') False False
                      [Text 2 (js ''ab ''), Text 7 (js ''ab''), Text 4 []]],
            next_id = 8, lastSelectedText = js ''ab''\<rparr>"
  let ?sel2 = "Some \<lparr>sel_toString = js ''ab'',
               sel_ranges = [\<lparr>startContainer = 2, startOffset = 0,
                              endContainer = 2, endOffset = 2\<rparr>]\<rparr>"
  have e: "getSelectedText toLowerCase None = []"
    by (simp add: getSelectedText_def)
  from empty_selection_clears_and_keeps_tracked_text [OF e, of ?st]
  obtain st1 where st1: "highlightNode toLowerCase None ?st = Inr st1"
    and again: "\<forall>sel2. getSelectedText toLowerCase sel2 = lastSelectedText ?st \<longrightarrow>
                  highlightNode toLowerCase sel2 st1 = Inr st1"
    by blast
  have run: "highlightNode toLowerCase None ?st = Inr ?st1"
    by code_simp
  with st1 have eq: "st1 = ?st1" by simp
  have "getSelectedText toLowerCase ?sel2 = lastSelectedText ?st"
    by code_simp
  with again eq have "highlightNode toLowerCase ?sel2 ?st1 = Inr ?st1" by blast
  with e run show ?thesis by blast
qed

text \<open>
  Claim C1, at a concrete input. A first call with the selection \<open>"ab"\<close> on the leaf
  \<open>"ab ab"\<close> marks the other occurrence and tracks \<open>"ab"\<close>. A second call with the same
  selection, whose text equals the tracked text, skips the pipeline but is not a no-op:
  the unconditional \<open>removeHighlights\<close> has replaced the marker by a text node, and no
  marker is left.
\<close>

theorem same_selection_removes_markers:
  "highlightNode toLowerCase
     (Some \<lparr>sel_toString = js ''ab'',
            sel_ranges = [\<lparr>startContainer = 2, startOffset = 0,
                           endContainer = 2, endOffset = 2\<rparr>]\<rparr>)
     \<lparr>doc = Elem 0 (js ''BODY'') False False
              [Elem 1 (js ''P'') False False [Text 2 (js ''ab ab'')]],
      next_id = 3, lastSelectedText = []\<rparr>
   = Inr \<lparr>doc = Elem 0 (js ''BODY'') False False
                 [Elem 1 (js ''P'') False False
                    [Text 2 (js ''ab ''), Elem 5 (js ''SPAN'') True False [Text 6 (js ''ab'')],
                     Text 4 []]],
          next_id = 7, lastSelectedText = js ''ab''\<rparr>
   \<and> highlightNode toLowerCase
     (Some \<lparr>sel_toString = js ''ab'',
            sel_ranges = [\<lparr>startContainer = 2, startOffset = 0,
                           endContainer = 2, endOffset = 2\<rparr>]\<rparr>)
     \<lparr>doc = Elem 0 (js ''BODY'') False False
                 [Elem 1 (js ''P'') False False
                    [Text 2 (js ''ab ''), Elem 5 (js ''SPAN'') True False [Text 6 (js ''ab'')],
                     Text 4 []]],
          next_id = 7, lastSelectedText = js ''ab''\<rparr>
   = Inr \<lparr>doc = Elem 0 (js ''BODY'') False False
                 [Elem 1 (js ''P'') False False
                    [Text 2 (js ''ab ''), Text 7 (js ''ab''), Text 4 []]],
          next_id = 8, lastSelectedText = js ''ab''\<rparr>"
  by code_simp

text \<open>
  Claim C6, at a concrete input. \<open>highlightNode\<close> has no guard for a selection of one
  alphanumeric character: with the first \<open>"a"\<close> of the leaf \<open>"a b a"\<close> selected, the
  pipeline runs and a marker is put around the other \<open>"a"\<close>.
\<close>

theorem single_character_selection_runs_pipeline:
  "highlightNode toLowerCase
     (Some \<lparr>sel_toString = js ''a'',
            sel_ranges = [\<lparr>startContainer = 2, startOffset = 0,
                           endContainer = 2, endOffset = 1\<rparr>]\<rparr>)
     \<lparr>doc = Elem 0 (js ''BODY'') False False
              [Elem 1 (js ''P'') False False [Text 2 (js ''a b a'')]],
      next_id = 3, lastSelectedText = []\<rparr>
   = Inr \<lparr>doc = Elem 0 (js ''BODY'') False False
                 [Elem 1 (js ''P'') False False
                    [Text 2 (js ''a b ''), Elem 5 (js ''SPAN'') True False [Text 6 (js ''a'')],
                     Text 4 []]],
          next_id = 7, lastSelectedText = js ''a''\<rparr>"
  by code_simp

section \<open>Properties of the segment collector\<close>

text \<open>
  What holds for every collection pass: the entries start at 0, each begins where the
  one before it ends, and the last ends at the sum of the lengths of the leaves'
  original text. That this sum is the length of the merged string needs the case
  mapping to keep the length of every string.
\<close>

lemma push_entries_length: "length (push_entries off acc) = length acc"
  by (induction off acc rule: push_entries.induct) simp_all

lemma push_entries_tiling:
  "(push_entries off acc \<noteq> [] \<longrightarrow> t_start (hd (push_entries off acc)) = off)
   \<and> (\<forall>k. Suc k < length acc \<longrightarrow>
          t_start (push_entries off acc ! Suc k) = t_end (push_entries off acc ! k))
   \<and> (\<forall>k < length acc.
          t_node (push_entries off acc ! k) = fst (acc ! k)
        \<and> t_end (push_entries off acc ! k)
            = t_start (push_entries off acc ! k) + int (length (snd (acc ! k))))
   \<and> (push_entries off acc \<noteq> [] \<longrightarrow>
          t_end (last (push_entries off acc)) = off + int (length (concat (map snd acc))))"
proof (induction off acc rule: push_entries.induct)
  case (1 offset)
  then show ?case by simp
next
  case (2 offset node data rest)
  let ?off = "offset + int (length data)"
  let ?e = "\<lparr>t_node = node, t_start = offset, t_end = ?off\<rparr>"
  from 2 have hd: "push_entries ?off rest \<noteq> [] \<longrightarrow> t_start (hd (push_entries ?off rest)) = ?off"
    and adj: "\<forall>k. Suc k < length rest \<longrightarrow>
          t_start (push_entries ?off rest ! Suc k) = t_end (push_entries ?off rest ! k)"
    and each: "\<forall>k < length rest.
          t_node (push_entries ?off rest ! k) = fst (rest ! k)
        \<and> t_end (push_entries ?off rest ! k)
            = t_start (push_entries ?off rest ! k) + int (length (snd (rest ! k)))"
    and lst: "push_entries ?off rest \<noteq> [] \<longrightarrow>
          t_end (last (push_entries ?off rest)) = ?off + int (length (concat (map snd rest)))"
    by blast+
  have a: "t_start (push_entries offset ((node, data) # rest) ! Suc k)
           = t_end (push_entries offset ((node, data) # rest) ! k)"
    if "Suc k < length ((node, data) # rest)" for k
  proof (cases k)
    case 0
    with that have "push_entries ?off rest \<noteq> []"
      by (cases rest) auto
    with hd 0 show ?thesis by (simp add: hd_conv_nth)
  next
    case (Suc k')
    with that adj show ?thesis by simp
  qed
  have b: "t_node (push_entries offset ((node, data) # rest) ! k) = fst (((node, data) # rest) ! k)
        \<and> t_end (push_entries offset ((node, data) # rest) ! k)
            = t_start (push_entries offset ((node, data) # rest) ! k)
              + int (length (snd (((node, data) # rest) ! k)))"
    if "k < length ((node, data) # rest)" for k
  proof (cases k)
    case 0
    then show ?thesis by simp
  next
    case (Suc k')
    with that each show ?thesis by simp
  qed
  have c: "t_end (last (push_entries offset ((node, data) # rest)))
           = offset + int (length (concat (map snd ((node, data) # rest))))"
  proof (cases "push_entries ?off rest = []")
    case True
    then have "rest = []" by (cases rest) auto
    then show ?thesis by simp
  next
    case False
    with lst show ?thesis by simp
  qed
  from a b c show ?case by simp
qed

lemma getTextNodes_tiling:
  assumes "getTextNodes lower root options = (texts, mergedText)"
  shows "(texts \<noteq> [] \<longrightarrow> t_start (hd texts) = 0)
       \<and> (\<forall>k. Suc k < length texts \<longrightarrow> t_start (texts ! Suc k) = t_end (texts ! k))
       \<and> (\<forall>e \<in> set texts. t_start e \<le> t_end e)
       \<and> ((\<forall>s. length (lower s) = length s) \<longrightarrow>
            int (length mergedText) = (if texts = [] then 0 else t_end (last texts)))"
proof -
  define eh where "eh = (case excludeHidden options of None \<Rightarrow> True | Some b \<Rightarrow> b)"
  define mcl where "mcl = (case minContentLength options of None \<Rightarrow> 1 | Some n \<Rightarrow> n)"
  define acc where "acc = walker_nodes lower eh mcl root"
  from assms have texts: "texts = push_entries 0 acc"
    and merged: "mergedText = concat (map (\<lambda>(node, text). lower text) acc)"
    by (auto simp: getTextNodes_def Let_def acc_def eh_def mcl_def)
  note t = push_entries_tiling [of 0 acc, folded texts]
  have len: "length texts = length acc" by (simp add: texts push_entries_length)
  have 1: "texts \<noteq> [] \<longrightarrow> t_start (hd texts) = 0" using t by simp
  have 2: "\<forall>k. Suc k < length texts \<longrightarrow> t_start (texts ! Suc k) = t_end (texts ! k)"
    using t len by simp
  have 3: "\<forall>e \<in> set texts. t_start e \<le> t_end e"
  proof
    fix e assume "e \<in> set texts"
    then obtain k where "k < length texts" "e = texts ! k" by (auto simp: in_set_conv_nth)
    with t len show "t_start e \<le> t_end e" by simp
  qed
  have 4: "int (length mergedText) = (if texts = [] then 0 else t_end (last texts))"
    if p: "\<forall>s. length (lower s) = length s"
  proof -
    have "length (concat (map (\<lambda>(node, text). lower text) acc)) = length (concat (map snd acc))"
      using p by (induction acc) auto
    moreover have "texts = [] \<Longrightarrow> acc = []" using len by simp
    ultimately show ?thesis using t merged by auto
  qed
  from 1 2 3 4 show ?thesis by blast
qed

text \<open>
  Claim C4, at a concrete input. For the single leaf U+0130 the only entry is
  \<open>[0, 1)\<close>, while the merged string, its lower-case form, has two code units: the
  entries tile \<open>[0, 1)\<close>, not \<open>[0, mergedText.length)\<close>.
\<close>

theorem getTextNodes_merged_length_differs:
  "getTextNodes toLowerCase (Elem 0 (js ''BODY'') False False [Text 1 [0x130]]) no_options
     = ([\<lparr>t_node = 1, t_start = 0, t_end = 1\<rparr>], [0x69, 0x307])
   \<and> length [0x69, 0x307 :: 16 word] \<noteq> length [0x130 :: 16 word]"
  by code_simp

text \<open>
  The effect on a pass: in the leaf U+0130 \<open>"stanbul st"\<close> the query \<open>"st"\<close> is found
  in the merged string one code unit to the right of where it stands in the leaf, and
  the markers wrap \<open>"ta"\<close> and \<open>"t"\<close> instead of the two occurrences of \<open>"st"\<close>.
\<close>

lemma markers_shifted_after_U0130:
  "highlightNode toLowerCase (Some \<lparr>sel_toString = js ''st'', sel_ranges = []\<rparr>)
     \<lparr>doc = Elem 0 (js ''BODY'') False False
              [Elem 1 (js ''P'') False False [Text 2 (0x130 # js ''stanbul st'')]],
      next_id = 3, lastSelectedText = []\<rparr>
   = Inr \<lparr>doc = Elem 0 (js ''BODY'') False False
                 [Elem 1 (js ''P'') False False
                    [Text 2 (0x130 # js ''s''),
                     Elem 9 (js ''SPAN'') True False [Text 10 (js ''ta'')],
                     Text 8 (js ''nbul s''),
                     Elem 5 (js ''SPAN'') True False [Text 6 (js ''t'')],
                     Text 4 []]],
          next_id = 11, lastSelectedText = js ''st''\<rparr>"
  by code_simp

section \<open>Properties of the splice engine\<close>

text \<open>
  Claim C2 as stated fails: for the three leaves \<open>"ab"\<close>, \<open>"cd"\<close>, \<open>"ef"\<close> under one
  parent and the match \<open>[1, 5]\<close> of \<open>"bcde"\<close>, the markers are not the single marker
  \<open>"bcde"\<close>.
\<close>

theorem spanning_match_one_marker_counterexample:
  "findMatches (snd (getTextNodes toLowerCase
       (Elem 0 (js ''BODY'') False False
          [Text 1 (js ''ab''), Text 2 (js ''cd''), Text 3 (js ''ef'')]) no_options)) (js ''bcde'')
     = [\<lparr>m_start = 1, m_end = 5\<rparr>]
   \<and> highlightMatches
       (fst (getTextNodes toLowerCase
          (Elem 0 (js ''BODY'') False False
             [Text 1 (js ''ab''), Text 2 (js ''cd''), Text 3 (js ''ef'')]) no_options))
       [\<lparr>m_start = 1, m_end = 5\<rparr>]
       (Elem 0 (js ''BODY'') False False
          [Text 1 (js ''ab''), Text 2 (js ''cd''), Text 3 (js ''ef'')], 4)
     = Inr (Elem 0 (js ''BODY'') False False
              [Text 1 (js ''a''), Elem 6 (js ''SPAN'') True False [Text 7 (js ''b'')], Text 5 [],
               Text 2 [], Elem 10 (js ''SPAN'') True False [Text 11 (js ''cd'')], Text 9 [],
               Text 3 [], Elem 14 (js ''SPAN'') True False [Text 15 (js ''e'')],
               Text 13 (js ''f'')], 16)
   \<and> map textContent (querySelectorAll_highlight
        (Elem 0 (js ''BODY'') False False
              [Text 1 (js ''a''), Elem 6 (js ''SPAN'') True False [Text 7 (js ''b'')], Text 5 [],
               Text 2 [], Elem 10 (js ''SPAN'') True False [Text 11 (js ''cd'')], Text 9 [],
               Text 3 [], Elem 14 (js ''SPAN'') True False [Text 15 (js ''e'')],
               Text 13 (js ''f'')]))
     \<noteq> [js ''bcde'']"
  by code_simp

text \<open>
  Claim C2, amended. For these leaves and this match \<open>highlightMatches\<close> produces three
  markers, one in each leaf the match touches, wrapping \<open>"b"\<close>, \<open>"cd"\<close> and \<open>"e"\<close>; the
  non-empty plain text leaves that remain are \<open>"a"\<close> and \<open>"f"\<close>. More generally, when the
  current match begins before the end of the entry and ends beyond it, the part up
  to the end of the entry is collected for this entry and \<open>currentMatchIndex\<close> does not
  advance, so the match is still the current one for the following entries.
\<close>

theorem spanning_match_marker_per_leaf:
  "highlightMatches
       (fst (getTextNodes toLowerCase
          (Elem 0 (js ''BODY'') False False
             [Text 1 (js ''ab''), Text 2 (js ''cd''), Text 3 (js ''ef'')]) no_options))
       [\<lparr>m_start = 1, m_end = 5\<rparr>]
       (Elem 0 (js ''BODY'') False False
          [Text 1 (js ''ab''), Text 2 (js ''cd''), Text 3 (js ''ef'')], 4)
     = Inr (Elem 0 (js ''BODY'') False False
              [Text 1 (js ''a''), Elem 6 (js ''SPAN'') True False [Text 7 (js ''b'')], Text 5 [],
               Text 2 [], Elem 10 (js ''SPAN'') True False [Text 11 (js ''cd'')], Text 9 [],
               Text 3 [], Elem 14 (js ''SPAN'') True False [Text 15 (js ''e'')],
               Text 13 (js ''f'')], 16)
   \<and> map textContent (querySelectorAll_highlight
        (Elem 0 (js ''BODY'') False False
              [Text 1 (js ''a''), Elem 6 (js ''SPAN'') True False [Text 7 (js ''b'')], Text 5 [],
               Text 2 [], Elem 10 (js ''SPAN'') True False [Text 11 (js ''cd'')], Text 9 [],
               Text 3 [], Elem 14 (js ''SPAN'') True False [Text 15 (js ''e'')],
               Text 13 (js ''f'')]))
     = [js ''b'', js ''cd'', js ''e'']
   \<and> filter (\<lambda>s. s \<noteq> []) (plain_leaves
        (Elem 0 (js ''BODY'') False False
              [Text 1 (js ''a''), Elem 6 (js ''SPAN'') True False [Text 7 (js ''b'')], Text 5 [],
               Text 2 [], Elem 10 (js ''SPAN'') True False [Text 11 (js ''cd'')], Text 9 [],
               Text 3 [], Elem 14 (js ''SPAN'') True False [Text 15 (js ''e'')],
               Text 13 (js ''f'')]))
     = [js ''a'', js ''f'']
   \<and> (\<forall>entry len m rest.
         len = t_end entry - t_start entry \<and> 0 \<le> len
         \<and> m_start m < t_end entry \<and> t_end entry < m_end m \<longrightarrow>
         collect_nodeMatches entry len (m # rest)
           = ([\<lparr>m_start = max 0 (m_start m - t_start entry), m_end = len\<rparr>], 0))"
proof -
  have carry: "collect_nodeMatches entry len (m # rest)
           = ([\<lparr>m_start = max 0 (m_start m - t_start entry), m_end = len\<rparr>], 0)"
    if "len = t_end entry - t_start entry \<and> 0 \<le> len
         \<and> m_start m < t_end entry \<and> t_end entry < m_end m" for entry len m rest
    using that by (simp add: Let_def min_def)
  have run: "highlightMatches
       (fst (getTextNodes toLowerCase
          (Elem 0 (js ''BODY'') False False
             [Text 1 (js ''ab''), Text 2 (js ''cd''), Text 3 (js ''ef'')]) no_options))
       [\<lparr>m_start = 1, m_end = 5\<rparr>]
       (Elem 0 (js ''BODY'') False False
          [Text 1 (js ''ab''), Text 2 (js ''cd''), Text 3 (js ''ef'')], 4)
     = Inr (Elem 0 (js ''BODY'') False False
              [Text 1 (js ''a''), Elem 6 (js ''SPAN'') True False [Text 7 (js ''b'')], Text 5 [],
               Text 2 [], Elem 10 (js ''SPAN'') True False [Text 11 (js ''cd'')], Text 9 [],
               Text 3 [], Elem 14 (js ''SPAN'') True False [Text 15 (js ''e'')],
               Text 13 (js ''f'')], 16)"
    by code_simp
  have markers: "map textContent (querySelectorAll_highlight
        (Elem 0 (js ''BODY'') False False
              [Text 1 (js ''a''), Elem 6 (js ''SPAN'') True False [Text 7 (js ''b'')], Text 5 [],
               Text 2 [], Elem 10 (js ''SPAN'') True False [Text 11 (js ''cd'')], Text 9 [],
               Text 3 [], Elem 14 (js ''SPAN'') True False [Text 15 (js ''e'')],
               Text 13 (js ''f'')]))
     = [js ''b'', js ''cd'', js ''e'']"
    by code_simp
  have leaves: "filter (\<lambda>s. s \<noteq> []) (plain_leaves
        (Elem 0 (js ''BODY'') False False
              [Text 1 (js ''a''), Elem 6 (js ''SPAN'') True False [Text 7 (js ''b'')], Text 5 [],
               Text 2 [], Elem 10 (js ''SPAN'') True False [Text 11 (js ''cd'')], Text 9 [],
               Text 3 [], Elem 14 (js ''SPAN'') True False [Text 15 (js ''e'')],
               Text 13 (js ''f'')]))
     = [js ''a'', js ''f'']"
    by code_simp
  from run markers leaves carry show ?thesis by blast
qed

theorem spanning_match_marker_per_leaf_witness:
  "collect_nodeMatches \<lparr>t_node = 1, t_start = 0, t_end = 2\<rparr> 2 [\<lparr>m_start = 1, m_end = 5\<rparr>]
     = ([\<lparr>m_start = 1, m_end = 2\<rparr>], 0)"
  using spanning_match_marker_per_leaf by simp

text \<open>
  Claim C8, at a concrete input. For the leaf \<open>"a b"\<close> and the match of \<open>"b"\<close>, whose
  local end is the length of the leaf, the second \<open>splitText\<close> has already inserted the
  empty remainder after the middle part; skipping \<open>span.after\<close> does not take it out,
  and the empty text node 3 follows the marker.
\<close>

theorem empty_leaf_follows_marker:
  "highlightMatches
     (fst (getTextNodes toLowerCase (Elem 0 (js ''BODY'') False False [Text 1 (js ''a b'')]) no_options))
     (findMatches
        (snd (getTextNodes toLowerCase (Elem 0 (js ''BODY'') False False [Text 1 (js ''a b'')])
                no_options))
        (js ''b''))
     (Elem 0 (js ''BODY'') False False [Text 1 (js ''a b'')], 2)
   = Inr (Elem 0 (js ''BODY'') False False
            [Text 1 (js ''a ''), Elem 4 (js ''SPAN'') True False [Text 5 (js ''b'')], Text 3 []],
          6)"
  by code_simp

section \<open>Substitution in the tree\<close>

lemma join_text_join_text: "join_text a (join_text b X) = join_text (a @ b) X"
  by (induction b X rule: join_text.induct) auto

lemma join_text_Nil [simp]: "join_text [] X = X"
proof (cases X)
  case Nil
  then show ?thesis by simp
next
  case (Cons x r)
  then show ?thesis by (cases x) simp_all
qed

lemma flat_list_append_cong:
  "flat_list ys = flat_list ys' \<Longrightarrow> flat_list (xs @ ys) = flat_list (xs @ ys')"
  by (induction xs rule: flat_list.induct) auto

lemma flat_list_replace:
  assumes "\<And>ys. flat_list (X @ ys) = flat_list (X' @ ys)"
    and "\<And>ys. flat_list (Y @ ys) = flat_list (Y' @ ys)"
  shows "flat_list ((X @ Y) @ ys) = flat_list ((X' @ Y') @ ys)"
proof -
  have "flat_list (X @ (Y @ ys)) = flat_list (X' @ (Y @ ys))" by (rule assms(1))
  also have "\<dots> = flat_list (X' @ (Y' @ ys))"
    by (rule flat_list_append_cong) (rule assms(2))
  finally show ?thesis by simp
qed

lemma flat_subst_list:
  assumes "\<And>k ys. k \<in> set ks \<Longrightarrow>
             flat_list (subst i seg k @ ys) = flat_list (k # ys)
           \<and> concat (map textContent (subst i seg k)) = textContent k"
  shows "flat_list (concat (map (subst i seg) ks) @ ys) = flat_list (ks @ ys)
       \<and> concat (map textContent (concat (map (subst i seg) ks))) = concat (map textContent ks)"
  using assms
proof (induction ks arbitrary: ys)
  case Nil
  then show ?case by simp
next
  case (Cons k ks)
  have k: "flat_list (subst i seg k @ zs) = flat_list ([k] @ zs)" for zs
    using Cons.prems [of k zs] by simp
  have r: "flat_list (concat (map (subst i seg) ks) @ zs) = flat_list (ks @ zs)" for zs
    using Cons.IH Cons.prems by simp
  have "flat_list ((subst i seg k @ concat (map (subst i seg) ks)) @ ys)
      = flat_list (([k] @ ks) @ ys)"
    by (rule flat_list_replace) (rule k, rule r)
  moreover have "concat (map textContent (concat (map (subst i seg) ks)))
      = concat (map textContent ks)"
    using Cons.IH Cons.prems by simp
  ultimately show ?case using Cons.prems [of k "[]"] by simp
qed

lemma flat_subst_node:
  assumes seg: "\<And>ys. flat_list (seg @ ys) = join_text s (flat_list ys)"
    and cat: "concat (map textContent seg) = s"
  shows "sole i s k \<Longrightarrow>
         (\<forall>ys. flat_list (subst i seg k @ ys) = flat_list (k # ys))
       \<and> concat (map textContent (subst i seg k)) = textContent k"
proof (induction k)
  case (Text j t)
  then show ?case using seg cat by auto
next
  case (Elem j tag hl hid kids)
  from Elem.prems have ji: "j \<noteq> i" and kids: "\<forall>k \<in> set kids. sole i s k" by simp_all
  have "\<And>k ys. k \<in> set kids \<Longrightarrow>
             flat_list (subst i seg k @ ys) = flat_list (k # ys)
           \<and> concat (map textContent (subst i seg k)) = textContent k"
    using Elem.IH kids by blast
  from flat_subst_list [OF this]
  have l: "flat_list (concat (map (subst i seg) kids) @ ys) = flat_list (kids @ ys)"
    and t: "concat (map textContent (concat (map (subst i seg) kids)))
            = concat (map textContent kids)" for ys
    by blast+
  from l [of "[]"] have l0: "flat_list (concat (map (subst i seg) kids)) = flat_list kids"
    by simp
  show ?case using ji l0 t by simp
qed

lemma flat_replace_in:
  assumes "\<And>ys. flat_list (seg @ ys) = join_text s (flat_list ys)"
    and "concat (map textContent seg) = s"
    and "\<forall>k \<in> set ks. sole i s k"
  shows "flat_list (concat (map (subst i seg) ks)) = flat_list ks"
    and "concat (map textContent (concat (map (subst i seg) ks))) = concat (map textContent ks)"
proof -
  have "\<And>k ys. k \<in> set ks \<Longrightarrow>
             flat_list (subst i seg k @ ys) = flat_list (k # ys)
           \<and> concat (map textContent (subst i seg k)) = textContent k"
    using flat_subst_node [OF assms(1,2)] assms(3) by blast
  from flat_subst_list [OF this, where ys = "[]"]
  show "flat_list (concat (map (subst i seg) ks)) = flat_list ks"
    and "concat (map textContent (concat (map (subst i seg) ks))) = concat (map textContent ks)"
    by simp_all
qed

lemma subst_fresh:
  "i \<notin> set (node_ids k) \<Longrightarrow> subst i r k = [k]"
proof (induction k)
  case (Text j s)
  then show ?case by simp
next
  case (Elem j tag hl hid kids)
  then have "\<forall>k \<in> set kids. subst i r k = [k]" by auto
  then have "concat (map (subst i r) kids) = kids"
    by (induction kids) simp_all
  with Elem.prems show ?case by simp
qed

lemma subst_fresh_list:
  "i \<notin> set (concat (map node_ids ks)) \<Longrightarrow> concat (map (subst i r) ks) = ks"
  by (induction ks) (simp_all add: subst_fresh)

lemma ids_subst_aux:
  assumes "\<forall>k \<in> set ks. set (concat (map node_ids (subst i r k))) \<subseteq> set (node_ids k) \<union> R"
  shows "set (concat (map node_ids (concat (map (subst i r) ks))))
         \<subseteq> set (concat (map node_ids ks)) \<union> R"
  using assms
proof (induction ks)
  case Nil
  then show ?case by simp
next
  case (Cons k ks)
  then have 1: "set (concat (map node_ids (subst i r k))) \<subseteq> set (node_ids k) \<union> R"
    and 2: "set (concat (map node_ids (concat (map (subst i r) ks))))
         \<subseteq> set (concat (map node_ids ks)) \<union> R"
    by simp_all
  have "set (concat (map node_ids (concat (map (subst i r) (k # ks)))))
      = set (concat (map node_ids (subst i r k)))
        \<union> set (concat (map node_ids (concat (map (subst i r) ks))))"
    by simp
  also have "\<dots> \<subseteq> (set (node_ids k) \<union> R) \<union> (set (concat (map node_ids ks)) \<union> R)"
    using 1 2 by (rule Un_mono)
  also have "\<dots> = set (concat (map node_ids (k # ks))) \<union> R"
    by auto
  finally show ?case .
qed

lemma ids_subst:
  "set (concat (map node_ids (subst i r k))) \<subseteq> set (node_ids k) \<union> set (concat (map node_ids r))"
proof (induction k)
  case (Text j s)
  then show ?case by auto
next
  case (Elem j tag hl hid kids)
  from Elem.IH have "\<forall>k \<in> set kids. set (concat (map node_ids (subst i r k)))
        \<subseteq> set (node_ids k) \<union> set (concat (map node_ids r))"
    by blast
  from ids_subst_aux [OF this]
  have "set (concat (map node_ids (concat (map (subst i r) kids))))
        \<subseteq> set (concat (map node_ids kids)) \<union> set (concat (map node_ids r))" .
  then show ?case by auto
qed

lemma ids_subst_list:
  "set (concat (map node_ids (concat (map (subst i r) ks))))
   \<subseteq> set (concat (map node_ids ks)) \<union> set (concat (map node_ids r))"
proof (rule ids_subst_aux)
  show "\<forall>k \<in> set ks. set (concat (map node_ids (subst i r k)))
          \<subseteq> set (node_ids k) \<union> set (concat (map node_ids r))"
    using ids_subst by blast
qed

lemma find_list_append:
  "find_list j (xs @ ys) = (case find_list j xs of Some x \<Rightarrow> Some x | None \<Rightarrow> find_list j ys)"
  by (induction xs) (simp_all split: option.splits)

lemma find_None:
  "(find_node j k = None) = (j \<notin> set (node_ids k))"
  "(find_list j ks = None) = (j \<notin> set (concat (map node_ids ks)))"
  by (induction j k and j ks rule: find_node_find_list.induct) (auto split: option.splits)

lemma find_subst:
  assumes "find_list j seg = Some x"
  shows "j = i \<or> j \<notin> set (node_ids k) \<Longrightarrow>
         find_list j (subst i seg k) = (if i \<in> set (node_ids k) then Some x else None)"
proof (induction k)
  case (Text i' s)
  then show ?case using assms by auto
next
  case (Elem i' tag hl hid kids)
  have kids: "find_list j (concat (map (subst i seg) kids))
              = (if i \<in> set (concat (map node_ids kids)) then Some x else None)"
    if "j = i \<or> j \<notin> set (concat (map node_ids kids))"
    using Elem.IH that
  proof (induction kids)
    case Nil
    then show ?case by simp
  next
    case (Cons k ks)
    from Cons.prems(2) have jk: "j = i \<or> j \<notin> set (node_ids k)"
      and jks: "j = i \<or> j \<notin> set (concat (map node_ids ks))" by auto
    have 1: "find_list j (subst i seg k) = (if i \<in> set (node_ids k) then Some x else None)"
      using Cons.prems(1) [of k] jk by simp
    have 2: "find_list j (concat (map (subst i seg) ks))
              = (if i \<in> set (concat (map node_ids ks)) then Some x else None)"
      using Cons.IH Cons.prems(1) jks by simp
    show ?case by (simp add: find_list_append 1 2)
  qed
  show ?case
  proof (cases "i' = i")
    case True
    then show ?thesis using assms by simp
  next
    case False
    from Elem.prems False have "j \<noteq> i'" by auto
    moreover from Elem.prems have "j = i \<or> j \<notin> set (concat (map node_ids kids))" by auto
    ultimately show ?thesis using False kids by simp
  qed
qed

lemma find_subst_list:
  assumes "find_list j seg = Some x" and "j = i \<or> j \<notin> set (concat (map node_ids ks))"
    and "i \<in> set (concat (map node_ids ks))"
  shows "find_list j (concat (map (subst i seg) ks)) = Some x"
proof -
  have "find_list j (concat (map (subst i seg) ks))
        = (if i \<in> set (concat (map node_ids ks)) then Some x else None)"
    using assms(2)
  proof (induction ks)
    case Nil
    then show ?case by simp
  next
    case (Cons k ks)
    from Cons.prems have jk: "j = i \<or> j \<notin> set (node_ids k)"
      and jks: "j = i \<or> j \<notin> set (concat (map node_ids ks))" by auto
    show ?case
      using find_subst [OF assms(1) jk] Cons.IH [OF jks] by (simp add: find_list_append)
  qed
  with assms(3) show ?thesis by simp
qed

lemma sole_fresh: "j \<notin> set (node_ids k) \<Longrightarrow> sole j t k"
  by (induction k) auto

lemma find_other_node:
  assumes "j \<noteq> i" and "j \<notin> set (concat (map node_ids seg))"
  shows "sole i s k \<Longrightarrow> find_node j k = Some (Text j t) \<Longrightarrow>
         find_list j (subst i seg k) = Some (Text j t)"
proof (induction k)
  case (Text i' s')
  then show ?case using assms by (auto split: if_splits)
next
  case (Elem i' tag hl hid kids)
  from Elem.prems have ne: "i' \<noteq> i" "i' \<noteq> j" and sk: "\<forall>k \<in> set kids. sole i s k"
    and f: "find_list j kids = Some (Text j t)"
    by (auto split: if_splits)
  have "find_list j (concat (map (subst i seg) kids)) = Some (Text j t)"
    using Elem.IH sk f
  proof (induction kids)
    case Nil
    then show ?case by simp
  next
    case (Cons k ks)
    show ?case
    proof (cases "find_node j k")
      case None
      then have "j \<notin> set (node_ids k)" by (simp add: find_None)
      with assms(2) ids_subst [of i seg k]
      have "j \<notin> set (concat (map node_ids (subst i seg k)))" by blast
      then have "find_list j (subst i seg k) = None" by (simp add: find_None)
      moreover from None Cons.prems(3) have "find_list j ks = Some (Text j t)" by simp
      with Cons.IH Cons.prems(1,2)
      have "find_list j (concat (map (subst i seg) ks)) = Some (Text j t)" by simp
      ultimately show ?thesis by (simp add: find_list_append)
    next
      case (Some y)
      with Cons.prems(3) have "find_node j k = Some (Text j t)" by simp
      with Cons.prems(1) [of k] Cons.prems(2)
      have "find_list j (subst i seg k) = Some (Text j t)" by simp
      then show ?thesis by (simp add: find_list_append)
    qed
  qed
  with ne show ?case by simp
qed

lemma find_other_list:
  assumes "j \<noteq> i" and "j \<notin> set (concat (map node_ids seg))"
    and "\<forall>k \<in> set ks. sole i s k" and "find_list j ks = Some (Text j t)"
  shows "find_list j (concat (map (subst i seg) ks)) = Some (Text j t)"
  using assms(3,4)
proof (induction ks)
  case Nil
  then show ?case by simp
next
  case (Cons k ks)
  show ?case
  proof (cases "find_node j k")
    case None
    then have "j \<notin> set (node_ids k)" by (simp add: find_None)
    with assms(2) ids_subst [of i seg k]
    have "j \<notin> set (concat (map node_ids (subst i seg k)))" by blast
    then have "find_list j (subst i seg k) = None" by (simp add: find_None)
    moreover from None Cons.prems(2) have "find_list j ks = Some (Text j t)" by simp
    with Cons.IH Cons.prems(1)
    have "find_list j (concat (map (subst i seg) ks)) = Some (Text j t)" by simp
    ultimately show ?thesis by (simp add: find_list_append)
  next
    case (Some y)
    with Cons.prems(2) have "find_node j k = Some (Text j t)" by simp
    with find_other_node [OF assms(1,2), of s k t] Cons.prems(1)
    have "find_list j (subst i seg k) = Some (Text j t)" by simp
    then show ?thesis by (simp add: find_list_append)
  qed
qed

lemma sole_subst:
  assumes "\<forall>x \<in> set seg. sole j t x"
  shows "sole j t k \<Longrightarrow> \<forall>x \<in> set (subst i seg k). sole j t x"
proof (induction k)
  case (Text i' s')
  then show ?case using assms by simp
next
  case (Elem i' tag hl hid kids)
  show ?case
  proof (cases "i' = i")
    case True
    then show ?thesis using assms by simp
  next
    case False
    from Elem.prems have ne: "i' \<noteq> j" and sk: "\<forall>k \<in> set kids. sole j t k" by simp_all
    have "\<forall>x \<in> set (concat (map (subst i seg) kids)). sole j t x"
    proof
      fix x assume "x \<in> set (concat (map (subst i seg) kids))"
      then obtain k where k: "k \<in> set kids" "x \<in> set (subst i seg k)" by auto
      with Elem.IH [OF k(1)] sk show "sole j t x" by blast
    qed
    with False ne show ?thesis by simp
  qed
qed

lemma sole_subst_list:
  assumes "\<forall>x \<in> set seg. sole j t x" and "\<forall>k \<in> set ks. sole j t k"
  shows "\<forall>x \<in> set (concat (map (subst i seg) ks)). sole j t x"
proof
  fix x assume "x \<in> set (concat (map (subst i seg) ks))"
  then obtain k where k: "k \<in> set ks" "x \<in> set (subst i seg k)" by auto
  with sole_subst [OF assms(1), of k i] assms(2) show "sole j t x" by blast
qed

lemma subst_self: "node_id x = j \<Longrightarrow> subst j R x = R"
  by (cases x) simp_all

lemma subst_compose:
  assumes "node_id x = j" and "j \<notin> set (concat (map node_ids L1))"
    and "j \<notin> set (concat (map node_ids L2))"
  shows "j = i \<or> j \<notin> set (node_ids k) \<Longrightarrow>
         concat (map (subst j R) (subst i (L1 @ [x] @ L2) k)) = subst i (L1 @ R @ L2) k"
proof (induction k)
  case (Text i' s)
  have seg: "concat (map (subst j R) (L1 @ [x] @ L2)) = L1 @ R @ L2"
    using assms by (simp add: subst_fresh_list subst_self)
  show ?case
  proof (cases "i' = i")
    case True
    then show ?thesis using seg by simp
  next
    case False
    with Text have "i' \<noteq> j" by auto
    with False show ?thesis by simp
  qed
next
  case (Elem i' tag hl hid kids)
  have seg: "concat (map (subst j R) (L1 @ [x] @ L2)) = L1 @ R @ L2"
    using assms by (simp add: subst_fresh_list subst_self)
  show ?case
  proof (cases "i' = i")
    case True
    then show ?thesis using seg by simp
  next
    case False
    with Elem.prems have ne: "i' \<noteq> j" by auto
    from Elem.prems False have "\<forall>k \<in> set kids. j = i \<or> j \<notin> set (node_ids k)" by auto
    with Elem.IH have "\<forall>k \<in> set kids.
       concat (map (subst j R) (subst i (L1 @ [x] @ L2) k)) = subst i (L1 @ R @ L2) k"
      by blast
    then have "concat (map (subst j R) (concat (map (subst i (L1 @ [x] @ L2)) kids)))
             = concat (map (subst i (L1 @ R @ L2)) kids)"
      by (induction kids) simp_all
    with False ne show ?thesis by simp
  qed
qed

lemma subst_compose_list:
  assumes "node_id x = j" and "j \<notin> set (concat (map node_ids L1))"
    and "j \<notin> set (concat (map node_ids L2))"
    and "j = i \<or> j \<notin> set (concat (map node_ids ks))"
  shows "concat (map (subst j R) (concat (map (subst i (L1 @ [x] @ L2)) ks)))
         = concat (map (subst i (L1 @ R @ L2)) ks)"
  using assms(4)
proof (induction ks)
  case Nil
  then show ?case by simp
next
  case (Cons k ks)
  then have 1: "j = i \<or> j \<notin> set (node_ids k)"
    and 2: "j = i \<or> j \<notin> set (concat (map node_ids ks))"
    by auto
  from subst_compose [OF assms(1,2,3) 1] Cons.IH [OF 2] show ?case by simp
qed

section \<open>The splice of one node in closed form\<close>

lemma find_node_id: "find_node i k = Some x \<Longrightarrow> node_id x = i"
  and find_list_id: "find_list i ks = Some x \<Longrightarrow> node_id x = i"
  by (induction i k and i ks rule: find_node_find_list.induct) (auto split: option.splits if_splits)

lemma text_data_Elem:
  "text_data (Elem r tag hl hid ks) i = (case find_list i ks of Some (Text j s) \<Rightarrow> Some s | _ \<Rightarrow> None)"
  by (simp add: text_data_def lookup_def)

lemma splitText_closed:
  assumes "find_list i ks = Some (Text i s)" and "0 \<le> a" and "a \<le> int (length s)"
    and "length s < 2 ^ 32"
  shows "splitText i a (Elem r tag hl hid ks, n)
       = Inr (n, (Elem r tag hl hid
                    (concat (map (subst i [Text i (take (nat a) s), Text n (drop (nat a) s)]) ks)),
                  Suc n))"
proof -
  from assms(2,3,4) have "a < 2 ^ 32" by simp
  with assms(2) have "a mod 2 ^ 32 = a" by simp
  with assms show ?thesis
    by (simp add: splitText_def text_data_Elem)
qed

lemma highlight_one_closed:
  assumes find: "find_list i ks = Some (Text i s)"
    and fresh: "\<forall>j \<in> set (concat (map node_ids ks)). j < n"
    and ab: "0 \<le> a" "a \<le> b" "b \<le> int (length s)"
    and short: "length s < 2 ^ 32"
  shows "highlight_one i \<lparr>m_start = a, m_end = b\<rparr> (Elem r tag hl hid ks, n)
       = Inr (Elem r tag hl hid (concat (map (subst i (marker_seg i s a b n)) ks)), n + 4)"
proof -
  define pre where "pre = take (nat a) s"
  define rest where "rest = drop (nat a) s"
  define mid where "mid = take (nat (b - a)) rest"
  define post where "post = drop (nat (b - a)) rest"
  define span where "span = Elem (Suc (Suc n)) (js ''SPAN'') True False [Text (Suc (Suc (Suc n))) mid]"
  from find have iin: "i \<in> set (concat (map node_ids ks))"
    using find_None(2) [of i ks] by auto
  with fresh have i_n: "i < n" by blast
  have fr: "k \<notin> set (concat (map node_ids ks))" if "n \<le> k" for k
  proof
    assume "k \<in> set (concat (map node_ids ks))"
    with fresh have "k < n" by blast
    with that show False by simp
  qed
  \<comment> \<open>first split\<close>
  define ks1 where "ks1 = concat (map (subst i [Text i pre, Text n rest]) ks)"
  have s1: "splitText i a (Elem r tag hl hid ks, n) = Inr (n, (Elem r tag hl hid ks1, Suc n))"
    using splitText_closed [OF find ab(1) _ short] ab
    by (simp add: ks1_def pre_def rest_def)
  \<comment> \<open>second split\<close>
  have f1: "find_list n ks1 = Some (Text n rest)"
    unfolding ks1_def
    by (rule find_subst_list) (use i_n iin fr in auto)
  have lrest: "b - a \<le> int (length rest)" "0 \<le> b - a" "length rest < 2 ^ 32"
    using ab short by (auto simp: rest_def)
  define ks2 where "ks2 = concat (map (subst n [Text n mid, Text (Suc n) post]) ks1)"
  have s2: "splitText n (b - a) (Elem r tag hl hid ks1, Suc n)
            = Inr (Suc n, (Elem r tag hl hid ks2, Suc (Suc n)))"
    using splitText_closed [OF f1 lrest(2) lrest(1) lrest(3)]
    by (simp add: ks2_def mid_def post_def)
  have ks2: "ks2 = concat (map (subst i [Text i pre, Text n mid, Text (Suc n) post]) ks)"
    unfolding ks2_def ks1_def
    using subst_compose_list [of "Text n rest" n "[Text i pre]" "[]" i ks
                                 "[Text n mid, Text (Suc n) post]"] i_n fr [of n]
    by simp
  have d_pre: "find_list n ks2 = Some (Text n mid)"
    unfolding ks2
    by (rule find_subst_list) (use i_n iin fr in auto)
  have d_hl: "find_list (Suc n) ks2 = Some (Text (Suc n) post)"
    unfolding ks2
    by (rule find_subst_list) (use i_n iin fr in auto)
  \<comment> \<open>the marker replaces the middle part\<close>
  define ks3 where "ks3 = concat (map (subst n [span]) ks2)"
  have ks3: "ks3 = concat (map (subst i [Text i pre, span, Text (Suc n) post]) ks)"
    unfolding ks3_def ks2
    using subst_compose_list [of "Text n mid" n "[Text i pre]" "[Text (Suc n) post]" i ks
                                 "[span]"] i_n fr [of n]
    by simp
  \<comment> \<open>the conditional \<open>after\<close> changes nothing\<close>
  have l_span: "find_list (Suc (Suc n)) ks3 = Some span"
    unfolding ks3
    by (rule find_subst_list) (use i_n iin fr in \<open>auto simp: span_def\<close>)
  have l_hl: "find_list (Suc n) ks3 = Some (Text (Suc n) post)"
    unfolding ks3
    by (rule find_subst_list) (use i_n iin fr in \<open>auto simp: span_def\<close>)
  have rm: "concat (map (subst (Suc n) []) ks3) = concat (map (subst i [Text i pre, span]) ks)"
    unfolding ks3
    using subst_compose_list [of "Text (Suc n) post" "Suc n" "[Text i pre, span]" "[]" i ks "[]"]
      i_n fr [of "Suc n"]
    by (simp add: span_def)
  have ins: "concat (map (subst (Suc (Suc n)) [span, Text (Suc n) post])
                     (concat (map (subst i [Text i pre, span]) ks))) = ks3"
    unfolding ks3
    using subst_compose_list [of span "Suc (Suc n)" "[Text i pre]" "[]" i ks
                                 "[span, Text (Suc n) post]"] i_n fr [of "Suc (Suc n)"]
    by (simp add: span_def)
  have aft: "after (Elem r tag hl hid ks3) (Suc (Suc n)) (Suc n) = Elem r tag hl hid ks3"
    by (simp add: after_def lookup_def l_span l_hl rm ins)
  have seg: "marker_seg i s a b n = [Text i pre, span, Text (Suc n) post]"
    by (simp add: marker_seg_def pre_def span_def mid_def post_def rest_def)
  show ?thesis
    unfolding highlight_one_def
    by (simp add: s1 s2 text_data_Elem d_pre d_hl createSpanElement_def Let_def
        ks3_def [symmetric] span_def [symmetric] aft seg ks3 [symmetric])
qed

lemma spliced_hd: "\<exists>t tail. spliced i s ms n = Text i t # tail"
proof (induction ms arbitrary: s n)
  case Nil
  then show ?case by simp
next
  case (Cons m ms)
  from Cons.IH [of "take (nat (m_start m)) s" "n + 4"] show ?case by auto
qed

lemma spliced_ids:
  "set (concat (map node_ids (spliced i s ms n))) \<subseteq> {i} \<union> {j. n \<le> j}"
proof (induction ms arbitrary: s n)
  case Nil
  then show ?case by simp
next
  case (Cons m ms)
  have "set (concat (map node_ids (spliced i (take (nat (m_start m)) s) ms (n + 4))))
        \<subseteq> {i} \<union> {j. n + 4 \<le> j}"
    by (rule Cons.IH)
  then have "set (concat (map node_ids (spliced i (take (nat (m_start m)) s) ms (n + 4))))
        \<subseteq> {i} \<union> {j. n \<le> j}"
    by auto
  then show ?case by (auto simp: marker_seg_def)
qed

lemma spliced_text:
  "fits (int (length s)) ms \<Longrightarrow> concat (map textContent (spliced i s ms n)) = s"
proof (induction ms arbitrary: s n)
  case Nil
  then show ?case by simp
next
  case (Cons m ms)
  define a where "a = nat (m_start m)"
  define b where "b = nat (m_end m)"
  from Cons.prems have ab: "a \<le> b" "b \<le> length s" "0 \<le> m_start m" "0 \<le> m_end m"
    and f: "fits (m_start m) ms"
    by (auto simp: a_def b_def)
  from ab have la: "int (length (take a s)) = m_start m" by (simp add: a_def)
  with f have "fits (int (length (take a s))) ms" by simp
  from Cons.IH [OF this] have ih: "concat (map textContent (spliced i (take a s) ms (n + 4))) = take a s" .
  have ba: "nat (m_end m - m_start m) = b - a"
    using ab by (simp add: a_def b_def nat_diff_distrib)
  have "take (b - a) (drop a s) @ drop (b - a) (drop a s) = drop a s"
    by (rule append_take_drop_id)
  then have "take a s @ take (b - a) (drop a s) @ drop (b - a) (drop a s) = s" by simp
  with ih show ?case
    by (simp add: marker_seg_def a_def [symmetric] ba del: drop_drop)
qed

lemma spliced_flat:
  "fits (int (length s)) ms \<Longrightarrow>
   flat_list (spliced i s ms n @ ys) = join_text s (flat_list ys)"
proof (induction ms arbitrary: s n ys)
  case Nil
  then show ?case by simp
next
  case (Cons m ms)
  define a where "a = nat (m_start m)"
  define b where "b = nat (m_end m)"
  from Cons.prems have ab: "a \<le> b" "b \<le> length s" "0 \<le> m_start m" "0 \<le> m_end m"
    and f: "fits (m_start m) ms"
    by (auto simp: a_def b_def)
  from ab have la: "int (length (take a s)) = m_start m" by (simp add: a_def)
  with f have f': "fits (int (length (take a s))) ms" by simp
  have ba: "nat (m_end m - m_start m) = b - a"
    using ab by (simp add: a_def b_def nat_diff_distrib)
  define mid where "mid = take (b - a) (drop a s)"
  define post where "post = drop (b - a) (drop a s)"
  have s: "take a s @ mid @ post = s"
  proof -
    have "mid @ post = drop a s"
      unfolding mid_def post_def by (rule append_take_drop_id)
    then show ?thesis by simp
  qed
  have tl: "tl (marker_seg i s (m_start m) (m_end m) n)
            = [Elem (n + 2) (js ''SPAN'') True False [Text (n + 3) mid], Text (n + 1) post]"
    by (simp add: marker_seg_def a_def [symmetric] ba mid_def post_def del: drop_drop)
  have "flat_list (spliced i s (m # ms) n @ ys)
      = flat_list (spliced i (take a s) ms (n + 4)
          @ ([Elem (n + 2) (js ''SPAN'') True False [Text (n + 3) mid], Text (n + 1) post] @ ys))"
    by (simp add: tl a_def)
  also have "\<dots> = join_text (take a s)
      (flat_list ([Elem (n + 2) (js ''SPAN'') True False [Text (n + 3) mid], Text (n + 1) post] @ ys))"
    by (rule Cons.IH [OF f'])
  also have "\<dots> = join_text (take a s) (join_text mid (join_text post (flat_list ys)))"
    by simp
  also have "\<dots> = join_text (take a s @ mid @ post) (flat_list ys)"
    by (simp add: join_text_join_text)
  finally show ?case by (simp add: s)
qed

lemma sole_subst_id: "sole i s k \<Longrightarrow> subst i [Text i s] k = [k]"
proof (induction k)
  case (Text j t)
  then show ?case by auto
next
  case (Elem j tag hl hid kids)
  then have "\<forall>k \<in> set kids. subst i [Text i s] k = [k]" by simp
  then have "concat (map (subst i [Text i s]) kids) = kids"
    by (induction kids) simp_all
  with Elem.prems show ?case by simp
qed

lemma sole_subst_id_list:
  "\<forall>k \<in> set ks. sole i s k \<Longrightarrow> concat (map (subst i [Text i s]) ks) = ks"
  by (induction ks) (simp_all add: sole_subst_id)

lemma highlight_all_in_context:
  assumes "fits (int (length s)) ms"
    and "i \<in> set (concat (map node_ids ks0))"
    and "\<forall>j \<in> set (concat (map node_ids ks0)). j < n"
    and "\<forall>j \<in> set (concat (map node_ids tail)). i < j \<and> j < n"
    and "length s < 2 ^ 32"
  shows "highlight_all i ms
           (Elem r tag hl hid (concat (map (subst i (Text i s # tail)) ks0)), n)
       = Inr (Elem r tag hl hid (concat (map (subst i (spliced i s ms n @ tail)) ks0)),
              n + 4 * length ms)"
  using assms
proof (induction ms arbitrary: s tail n)
  case Nil
  then show ?case by simp
next
  case (Cons m ms)
  define ks where "ks = concat (map (subst i (Text i s # tail)) ks0)"
  define a where "a = m_start m"
  define b where "b = m_end m"
  from Cons.prems(1) have ab: "0 \<le> a" "a \<le> b" "b \<le> int (length s)"
    and f: "fits a ms"
    by (simp_all add: a_def b_def)
  from Cons.prems(2,3) have i_n: "i < n" by blast
  have m: "m = \<lparr>m_start = a, m_end = b\<rparr>" by (simp add: a_def b_def)
  have find: "find_list i ks = Some (Text i s)"
    unfolding ks_def by (rule find_subst_list) (use Cons.prems(2) in auto)
  have ids: "\<forall>j \<in> set (concat (map node_ids ks)). j < n"
  proof
    fix j assume "j \<in> set (concat (map node_ids ks))"
    with ids_subst_list [of i "Text i s # tail" ks0]
    have "j \<in> set (concat (map node_ids ks0)) \<or> j = i \<or> j \<in> set (concat (map node_ids tail))"
      unfolding ks_def by auto
    with Cons.prems(3,4) i_n show "j < n" by blast
  qed
  define tlm where "tlm = tl (marker_seg i s a b n)"
  define pre where "pre = take (nat a) s"
  have seg: "marker_seg i s a b n = Text i pre # tlm"
    by (simp add: marker_seg_def tlm_def pre_def)
  have tlm_ids: "set (concat (map node_ids tlm)) = {n + 2, n + 3, n + 1}"
    by (simp add: marker_seg_def tlm_def)
  have itail: "i \<notin> set (concat (map node_ids tail))"
    using Cons.prems(4) by auto
  have one: "highlight_one i m (Elem r tag hl hid ks, n)
             = Inr (Elem r tag hl hid (concat (map (subst i (marker_seg i s a b n)) ks)), n + 4)"
    unfolding m by (rule highlight_one_closed [OF find ids ab Cons.prems(5)])
  have comp: "concat (map (subst i (marker_seg i s a b n)) ks)
              = concat (map (subst i (Text i pre # (tlm @ tail))) ks0)"
    unfolding ks_def
    using subst_compose_list [of "Text i s" i "[]" tail i ks0 "marker_seg i s a b n"] itail
    by (simp add: seg)
  have lpre: "int (length pre) = a" using ab by (simp add: pre_def)
  have ih: "highlight_all i ms
              (Elem r tag hl hid (concat (map (subst i (Text i pre # (tlm @ tail))) ks0)), n + 4)
            = Inr (Elem r tag hl hid
                     (concat (map (subst i (spliced i pre ms (n + 4) @ (tlm @ tail))) ks0)),
                   n + 4 + 4 * length ms)"
  proof (rule Cons.IH)
    show "fits (int (length pre)) ms" using f lpre by simp
    show "i \<in> set (concat (map node_ids ks0))" by (rule Cons.prems(2))
    show "\<forall>j \<in> set (concat (map node_ids ks0)). j < n + 4"
    proof
      fix j assume "j \<in> set (concat (map node_ids ks0))"
      with Cons.prems(3) have "j < n" by blast
      then show "j < n + 4" by simp
    qed
    show "\<forall>j \<in> set (concat (map node_ids (tlm @ tail))). i < j \<and> j < n + 4"
    proof
      fix j assume "j \<in> set (concat (map node_ids (tlm @ tail)))"
      then have "j \<in> {n + 2, n + 3, n + 1} \<or> j \<in> set (concat (map node_ids tail))"
        using tlm_ids by auto
      then show "i < j \<and> j < n + 4"
      proof
        assume "j \<in> {n + 2, n + 3, n + 1}"
        with i_n show ?thesis by auto
      next
        assume "j \<in> set (concat (map node_ids tail))"
        with Cons.prems(4) have "i < j \<and> j < n" by blast
        then show ?thesis by simp
      qed
    qed
    show "length pre < 2 ^ 32" using Cons.prems(5) by (simp add: pre_def)
  qed
  have sp: "spliced i s (m # ms) n @ tail = spliced i pre ms (n + 4) @ (tlm @ tail)"
    by (simp add: pre_def tlm_def a_def b_def)
  show ?case
    unfolding ks_def [symmetric] sp
    by (simp add: one comp ih)
qed

lemma highlight_all_closed:
  assumes "fits (int (length s)) ms"
    and "find_list i ks = Some (Text i s)"
    and "\<forall>k \<in> set ks. sole i s k"
    and "\<forall>j \<in> set (concat (map node_ids ks)). j < n"
    and "length s < 2 ^ 32"
  shows "highlight_all i ms (Elem r tag hl hid ks, n)
       = Inr (Elem r tag hl hid (concat (map (subst i (spliced i s ms n)) ks)),
              n + 4 * length ms)"
proof -
  from assms(2) have iin: "i \<in> set (concat (map node_ids ks))"
    using find_None(2) [of i ks] by auto
  have "highlight_all i ms (Elem r tag hl hid (concat (map (subst i (Text i s # [])) ks)), n)
       = Inr (Elem r tag hl hid (concat (map (subst i (spliced i s ms n @ [])) ks)),
              n + 4 * length ms)"
    by (rule highlight_all_in_context [OF assms(1) iin assms(4) _ assms(5)]) simp
  then show ?thesis
    by (simp add: sole_subst_id_list [OF assms(3)])
qed

section \<open>The ranges collected for a node\<close>

lemma nonoverlapping_weaken:
  "nonoverlapping lo ms \<Longrightarrow> lo' \<le> lo \<Longrightarrow> nonoverlapping lo' ms"
  by (cases ms) auto

lemma nonoverlapping_filter:
  "nonoverlapping lo ms \<Longrightarrow> nonoverlapping lo (filter P ms)"
proof (induction ms arbitrary: lo)
  case Nil
  then show ?case by simp
next
  case (Cons m ms)
  then have 1: "nonoverlapping (m_end m) (filter P ms)" and 2: "lo \<le> m_start m" "m_start m \<le> m_end m"
    by simp_all
  from 2 have "lo \<le> m_end m" by simp
  with 1 have "nonoverlapping lo (filter P ms)" by (rule nonoverlapping_weaken)
  with 1 2 show ?case by simp
qed

lemma nonoverlapping_drop:
  "nonoverlapping lo ms \<Longrightarrow> nonoverlapping lo (drop k ms)"
proof (induction ms arbitrary: lo k)
  case Nil
  then show ?case by simp
next
  case (Cons m ms)
  show ?case
  proof (cases k)
    case 0
    with Cons.prems show ?thesis by simp
  next
    case (Suc k')
    from Cons.prems have "nonoverlapping (m_end m) ms" "lo \<le> m_end m" by simp_all
    then have "nonoverlapping lo ms" by (rule nonoverlapping_weaken)
    from Cons.IH [OF this] Suc show ?thesis by simp
  qed
qed

lemma nonoverlapping_lower:
  "nonoverlapping lo ms \<Longrightarrow> \<forall>m \<in> set ms. lo \<le> m_start m"
proof (induction ms arbitrary: lo)
  case Nil
  then show ?case by simp
next
  case (Cons m ms)
  then have "\<forall>x \<in> set ms. m_end m \<le> m_start x" "lo \<le> m_start m" "m_start m \<le> m_end m"
    by simp_all
  then show ?case by fastforce
qed

lemma nonoverlapping_sorted:
  "nonoverlapping lo ms \<Longrightarrow> sorted (map m_start ms)"
proof (induction ms arbitrary: lo)
  case Nil
  then show ?case by simp
next
  case (Cons m ms)
  from Cons.prems have "nonoverlapping (m_end m) ms" by simp
  then have "sorted (map m_start ms)" by (rule Cons.IH)
  moreover from Cons.prems have "\<forall>x \<in> set ms. m_end m \<le> m_start x"
    using nonoverlapping_lower [of "m_end m" ms] by simp
  moreover from Cons.prems have "m_start m \<le> m_end m" by simp
  ultimately show ?case by fastforce
qed

lemma spec_leftmost_first_nonoverlapping:
  "spec_leftmost_first s q p ms \<Longrightarrow> nonoverlapping (int p) ms"
proof (induction ms arbitrary: p)
  case Nil
  then show ?case by simp
next
  case (Cons m ms)
  then have 1: "0 \<le> m_start m" "p \<le> nat (m_start m)" "m_end m = m_start m + int (length q)"
    and 2: "spec_leftmost_first s q (nat (m_end m)) ms"
    by auto
  from Cons.IH [OF 2] have "nonoverlapping (int (nat (m_end m))) ms" .
  moreover from 1 have "int (nat (m_end m)) = m_end m" by simp
  ultimately have "nonoverlapping (m_end m) ms" by simp
  with 1 show ?case by simp
qed

lemma findMatches_nonoverlapping: "nonoverlapping 0 (findMatches s q)"
proof (cases "q = []")
  case True
  then show ?thesis by (simp add: findMatches_def)
next
  case False
  from loop_spec [OF False, of 0 s] False
  have "spec_leftmost_first s q 0 (findMatches s q)" by (simp add: findMatches_def)
  from spec_leftmost_first_nonoverlapping [OF this] show ?thesis by simp
qed

lemma collect_ascending:
  assumes "0 \<le> len" and "t_end e = t_start e + len"
  shows "nonoverlapping lo ms \<Longrightarrow>
         ascending (max 0 (lo - t_start e)) len (fst (collect_nodeMatches e len ms))"
proof (induction ms arbitrary: lo)
  case Nil
  then show ?case by simp
next
  case (Cons m ms)
  from Cons.prems have lo: "lo \<le> m_start m" and se: "m_start m \<le> m_end m"
    and rest: "nonoverlapping (m_end m) ms" by simp_all
  show ?case
  proof (cases "m_start m \<ge> t_start e \<and> m_end m \<le> t_end e")
    case True
    from Cons.IH [OF rest]
    have "ascending (max 0 (m_end m - t_start e)) len (fst (collect_nodeMatches e len ms))" .
    moreover from True se have "max 0 (m_end m - t_start e) = m_end m - t_start e" by simp
    ultimately have "ascending (m_end m - t_start e) len (fst (collect_nodeMatches e len ms))"
      by simp
    moreover obtain nm k where c: "collect_nodeMatches e len ms = (nm, k)"
      by (cases "collect_nodeMatches e len ms")
    ultimately have "ascending (m_end m - t_start e) len nm" by simp
    with True lo se assms c show ?thesis
      by (simp add: Let_def)
  next
    case False
    show ?thesis
    proof (cases "m_start m < t_end e \<and> m_end m > t_start e")
      case True
      let ?p = "\<lparr>m_start = max 0 (m_start m - t_start e),
                 m_end = min len (m_end m - t_start e)\<rparr>"
      have c: "collect_nodeMatches e len (m # ms) = ([?p], 0)"
        by (simp only: collect_nodeMatches.simps Let_def if_not_P [OF False] if_P [OF True])
      from True lo have 1: "max 0 (lo - t_start e) \<le> max 0 (m_start m - t_start e)"
        by linarith
      from True se assms have 2: "max 0 (m_start m - t_start e) \<le> min len (m_end m - t_start e)"
        by linarith
      have 3: "min len (m_end m - t_start e) \<le> len" by simp
      from 1 2 3 show ?thesis unfolding c by simp
    next
      case F2: False
      have "collect_nodeMatches e len (m # ms) = ([], 0)"
        by (simp only: collect_nodeMatches.simps Let_def if_not_P [OF False] if_not_P [OF F2])
      then show ?thesis by simp
    qed
  qed
qed

lemma fits_snoc:
  "fits len (xs @ [m]) =
     (fits len xs \<and> 0 \<le> m_start m \<and> m_start m \<le> m_end m
      \<and> m_end m \<le> (if xs = [] then len else m_start (last xs)))"
  by (induction xs arbitrary: len) auto

lemma ascending_fits:
  "0 \<le> lo \<Longrightarrow> ascending lo len nm \<Longrightarrow> fits len (rev nm)"
proof (induction nm arbitrary: lo)
  case Nil
  then show ?case by simp
next
  case (Cons m r)
  from Cons.prems have m: "lo \<le> m_start m" "m_start m \<le> m_end m" "m_end m \<le> len"
    and r: "ascending (m_end m) len r" by simp_all
  from m Cons.prems(1) have "0 \<le> m_end m" by simp
  from Cons.IH [OF this r] have ih: "fits len (rev r)" .
  have "r \<noteq> [] \<Longrightarrow> m_end m \<le> m_start (hd r)"
    using r by (cases r) simp_all
  then have "m_end m \<le> (if rev r = [] then len else m_start (last (rev r)))"
    using m by (simp add: last_rev)
  with ih m Cons.prems(1) show ?case by (simp add: fits_snoc)
qed

section \<open>The entries of a well-formed document\<close>

lemma text_nodes_ids: "fst ` set (text_nodes k) \<subseteq> set (node_ids k)"
proof (induction k)
  case (Text i s)
  then show ?case by simp
next
  case (Elem i tag hl hid kids)
  then show ?case by fastforce
qed

lemma walk_text_nodes: "set (walk lower eh mcl p k) \<subseteq> set (text_nodes k)"
proof (induction k arbitrary: p)
  case (Text i s)
  then show ?case by auto
next
  case (Elem i tag hl hid kids)
  then show ?case by fastforce
qed

lemma walk_ids: "set (map fst (walk lower eh mcl p k)) \<subseteq> set (node_ids k)"
  using walk_text_nodes [of lower eh mcl p k] text_nodes_ids [of k] by auto

lemma distinct_concat_map_sub:
  assumes "\<forall>k \<in> set ks. distinct (f k) \<and> set (f k) \<subseteq> set (g k)"
    and "distinct (concat (map g ks))"
  shows "distinct (concat (map f ks))"
  using assms
proof (induction ks)
  case Nil
  then show ?case by simp
next
  case (Cons k ks)
  from Cons.prems have 1: "distinct (f k)" "set (f k) \<subseteq> set (g k)"
    and 2: "\<forall>k \<in> set ks. distinct (f k) \<and> set (f k) \<subseteq> set (g k)"
    and 3: "distinct (concat (map g ks))"
    and 4: "set (g k) \<inter> set (concat (map g ks)) = {}"
    by simp_all
  from Cons.IH [OF 2 3] have ih: "distinct (concat (map f ks))" .
  have "set (concat (map f ks)) \<subseteq> set (concat (map g ks))"
    using 2 by auto
  with 1(2) 4 have "set (f k) \<inter> set (concat (map f ks)) = {}" by blast
  with 1(1) ih show ?case by simp
qed

lemma walk_distinct:
  "distinct (node_ids k) \<Longrightarrow> distinct (map fst (walk lower eh mcl p k))"
proof (induction k arbitrary: p)
  case (Text i s)
  then show ?case by simp
next
  case (Elem i tag hl hid kids)
  from Elem.prems have d: "distinct (concat (map node_ids kids))" by simp
  have dk: "distinct (node_ids k)" if "k \<in> set kids" for k
    using d that by (induction kids) auto
  have "distinct (concat (map (\<lambda>k. map fst (walk lower eh mcl (Some (tag, hid)) k)) kids))"
  proof (rule distinct_concat_map_sub [where g = node_ids])
    show "\<forall>k \<in> set kids. distinct (map fst (walk lower eh mcl (Some (tag, hid)) k))
            \<and> set (map fst (walk lower eh mcl (Some (tag, hid)) k)) \<subseteq> set (node_ids k)"
      using Elem.IH dk walk_ids by blast
    show "distinct (concat (map node_ids kids))" by (rule d)
  qed
  then show ?case by (simp add: map_concat comp_def)
qed

lemma walker_nodes_distinct:
  "distinct (node_ids root) \<Longrightarrow> distinct (map fst (walker_nodes lower eh mcl root))"
proof (cases root)
  case (Text i s)
  then show ?thesis by simp
next
  case (Elem i tag hl hid kids)
  assume "distinct (node_ids root)"
  with Elem have "distinct (map fst (walk lower eh mcl None (Elem i tag hl hid kids)))"
    using walk_distinct by blast
  with Elem show ?thesis by simp
qed

lemma walker_nodes_text_nodes:
  "set (walker_nodes lower eh mcl root) \<subseteq> set (text_nodes root)"
proof (cases root)
  case (Text i s)
  then show ?thesis by simp
next
  case (Elem i tag hl hid kids)
  have "set (walk lower eh mcl None (Elem i tag hl hid kids))
        \<subseteq> set (text_nodes (Elem i tag hl hid kids))"
    by (rule walk_text_nodes)
  with Elem show ?thesis by simp
qed

lemma text_node_sole:
  "distinct (node_ids k) \<Longrightarrow> (i, s) \<in> set (text_nodes k) \<Longrightarrow>
   find_node i k = Some (Text i s) \<and> sole i s k"
proof (induction k)
  case (Text j t)
  then show ?case by simp
next
  case (Elem j tag hl hid kids)
  from Elem.prems(2) have "i \<in> fst ` set (concat (map text_nodes kids))" by force
  then have iin: "i \<in> set (concat (map node_ids kids))"
    using text_nodes_ids by fastforce
  with Elem.prems(1) have ji: "j \<noteq> i" by auto
  from Elem.prems(1) have d: "distinct (concat (map node_ids kids))" by simp
  from Elem.prems(2) have t: "(i, s) \<in> set (concat (map text_nodes kids))" by simp
  have "find_list i kids = Some (Text i s) \<and> (\<forall>k \<in> set kids. sole i s k)"
    using Elem.IH d t
  proof (induction kids)
    case Nil
    then show ?case by simp
  next
    case (Cons k ks)
    from Cons.prems(2) have dk: "distinct (node_ids k)"
      and dks: "distinct (concat (map node_ids ks))"
      and dis: "set (node_ids k) \<inter> set (concat (map node_ids ks)) = {}"
      by simp_all
    show ?case
    proof (cases "(i, s) \<in> set (text_nodes k)")
      case True
      with Cons.prems(1) [of k] dk have f: "find_node i k = Some (Text i s)" and s: "sole i s k"
        by simp_all
      from True text_nodes_ids [of k] have "i \<in> set (node_ids k)" by force
      with dis have "i \<notin> set (concat (map node_ids ks))" by blast
      then have "\<forall>k' \<in> set ks. sole i s k'" by (auto intro: sole_fresh)
      with f s show ?thesis by simp
    next
      case False
      with Cons.prems(3) have t': "(i, s) \<in> set (concat (map text_nodes ks))" by simp
      from Cons.IH [OF _ dks t'] Cons.prems(1)
      have ih: "find_list i ks = Some (Text i s)" "\<forall>k \<in> set ks. sole i s k" by simp_all
      from t' text_nodes_ids have "i \<in> set (concat (map node_ids ks))" by fastforce
      with dis have ik: "i \<notin> set (node_ids k)" by blast
      then have "find_node i k = None" "sole i s k"
        by (simp_all add: find_None sole_fresh)
      with ih show ?thesis by simp
    qed
  qed
  with ji show ?case by simp
qed

section \<open>A whole pass and its reversal\<close>

lemma spliced_ids_upper:
  "set (concat (map node_ids (spliced i s ms n))) \<subseteq> {i} \<union> {j. j < n + 4 * length ms}"
proof (induction ms arbitrary: s n)
  case Nil
  then show ?case by simp
next
  case (Cons m ms)
  have "set (concat (map node_ids (spliced i (take (nat (m_start m)) s) ms (n + 4))))
        \<subseteq> {i} \<union> {j. j < n + 4 + 4 * length ms}"
    by (rule Cons.IH)
  then show ?case by (auto simp: marker_seg_def)
qed

lemma forEach_entry_ok:
  assumes "distinct (map fst acc)"
    and "\<forall>(i, s) \<in> set acc. find_list i ks = Some (Text i s)
            \<and> (\<forall>k \<in> set ks. sole i s k) \<and> length s < 2 ^ 32"
    and "\<forall>j \<in> set (concat (map node_ids ks)). j < n"
    and "nonoverlapping lo sm"
  shows "\<exists>ks' n'. forEach_entry (push_entries off acc) sm idx (Elem r tag hl hid ks, n)
                    = Inr (Elem r tag hl hid ks', n')
               \<and> flat_list ks' = flat_list ks
               \<and> concat (map textContent ks') = concat (map textContent ks)"
  using assms(1,2,3)
proof (induction acc arbitrary: off idx ks n)
  case Nil
  then show ?case by simp
next
  case (Cons p acc)
  obtain i s where p: "p = (i, s)" by (cases p)
  define e where "e = \<lparr>t_node = i, t_start = off, t_end = off + int (length s)\<rparr>"
  from Cons.prems(2) p have find: "find_list i ks = Some (Text i s)"
    and sole: "\<forall>k \<in> set ks. sole i s k" and short: "length s < 2 ^ 32"
    by auto
  have te: "t_node e = i" by (simp add: e_def)
  have td: "text_data (Elem r tag hl hid ks) i = Some s"
    by (simp add: text_data_Elem find)
  obtain nm k where c: "collect_nodeMatches e (int (length s)) (drop idx sm) = (nm, k)"
    by (cases "collect_nodeMatches e (int (length s)) (drop idx sm)")
  have "nonoverlapping lo (drop idx sm)"
    using assms(4) by (rule nonoverlapping_drop)
  from collect_ascending [OF _ _ this, of "int (length s)" e] c
  have "ascending (max 0 (lo - t_start e)) (int (length s)) nm"
    by (simp add: e_def)
  then have fits: "fits (int (length s)) (rev nm)"
    by (rule ascending_fits [rotated]) simp
  define seg where "seg = spliced i s (rev nm) n"
  define ks1 where "ks1 = (if nm \<noteq> [] then concat (map (subst i seg) ks) else ks)"
  define n1 where "n1 = (if nm \<noteq> [] then n + 4 * length nm else n)"
  have step: "(if nm \<noteq> [] then highlight_all i (rev nm) (Elem r tag hl hid ks, n)
               else Inr (Elem r tag hl hid ks, n))
              = Inr (Elem r tag hl hid ks1, n1)"
    using highlight_all_closed [OF fits find sole Cons.prems(3) short, of r tag hl hid]
    by (simp add: ks1_def n1_def seg_def)
  have flat1: "flat_list ks1 = flat_list ks"
    and text1: "concat (map textContent ks1) = concat (map textContent ks)"
    using flat_replace_in [of seg s ks i] spliced_flat [OF fits, of i n] spliced_text [OF fits, of i n] sole
    by (simp_all add: ks1_def seg_def)
  have seg_ids: "set (concat (map node_ids seg)) \<subseteq> {i} \<union> {j. n \<le> j \<and> j < n + 4 * length nm}"
    using spliced_ids [of i s "rev nm" n] spliced_ids_upper [of i s "rev nm" n]
    by (auto simp: seg_def)
  have iin: "i \<in> set (concat (map node_ids ks))"
    using find find_None(2) [of i ks] by auto
  with Cons.prems(3) have i_n: "i < n" by blast
  have ids1: "\<forall>j \<in> set (concat (map node_ids ks1)). j < n1"
  proof (cases "nm = []")
    case True
    with Cons.prems(3) show ?thesis by (simp add: ks1_def n1_def)
  next
    case False
    show ?thesis
    proof
      fix j assume "j \<in> set (concat (map node_ids ks1))"
      with False ids_subst_list [of i seg ks]
      have "j \<in> set (concat (map node_ids ks)) \<or> j \<in> set (concat (map node_ids seg))"
        by (auto simp: ks1_def)
      then show "j < n1"
      proof
        assume "j \<in> set (concat (map node_ids ks))"
        with Cons.prems(3) have "j < n" by blast
        then show ?thesis by (simp add: n1_def)
      next
        assume "j \<in> set (concat (map node_ids seg))"
        with seg_ids have "j = i \<or> j < n + 4 * length nm" by auto
        with i_n False show ?thesis by (auto simp: n1_def)
      qed
    qed
  qed
  have rest: "\<forall>(j, t) \<in> set acc. find_list j ks1 = Some (Text j t)
            \<and> (\<forall>k \<in> set ks1. sole j t k) \<and> length t < 2 ^ 32"
  proof (cases "nm = []")
    case True
    with Cons.prems(2) show ?thesis by (simp add: ks1_def)
  next
    case False
    show ?thesis
    proof (clarify, intro conjI)
      fix j t assume jt: "(j, t) \<in> set acc"
      with Cons.prems(2) have fj: "find_list j ks = Some (Text j t)"
        and sj: "\<forall>k \<in> set ks. sole j t k" and lj: "length t < 2 ^ 32"
        by auto
      from jt Cons.prems(1) p have ji: "j \<noteq> i" by force
      from fj have "j \<in> set (concat (map node_ids ks))"
        using find_None(2) [of j ks] by auto
      with Cons.prems(3) have "j < n" by blast
      with ji seg_ids have jseg: "j \<notin> set (concat (map node_ids seg))" by auto
      show "find_list j ks1 = Some (Text j t)"
        using find_other_list [OF ji jseg sole fj] False by (simp add: ks1_def)
      have "\<forall>x \<in> set seg. sole j t x"
        using jseg by (auto intro: sole_fresh)
      from sole_subst_list [OF this sj, of i]
      show "\<forall>k \<in> set ks1. sole j t k" using False by (simp add: ks1_def)
      show "length t < 2 ^ 32" by (rule lj)
    qed
  qed
  from Cons.prems(1) have d: "distinct (map fst acc)" by simp
  from Cons.IH [OF d rest ids1, of "off + int (length s)" "idx + k"]
  obtain ks' n' where r: "forEach_entry (push_entries (off + int (length s)) acc) sm (idx + k)
                            (Elem r tag hl hid ks1, n1) = Inr (Elem r tag hl hid ks', n')"
    and f: "flat_list ks' = flat_list ks1"
    and t: "concat (map textContent ks') = concat (map textContent ks1)"
    by blast
  have "forEach_entry (push_entries off (p # acc)) sm idx (Elem r tag hl hid ks, n)
        = Inr (Elem r tag hl hid ks', n')"
    using td c step r
    by (cases "nm = []") (simp_all add: p e_def [symmetric] te)
  with f t flat1 text1 show ?case by simp
qed

lemma removeHighlights_flat:
  "(\<forall>ys. flat_list (fst (removeHighlights_node k n) # ys) = flat_list (k # ys))
   \<and> textContent (fst (removeHighlights_node k n)) = textContent k"
  "flat_list (fst (removeHighlights_list ks n)) = flat_list ks
   \<and> concat (map textContent (fst (removeHighlights_list ks n))) = concat (map textContent ks)"
proof (induction k n and ks n rule: removeHighlights_node_removeHighlights_list.induct)
  case (1 i s n)
  then show ?case by simp
next
  case (2 i tag hl hid kids n)
  show ?case
  proof (cases hl)
    case True
    then show ?thesis by simp
  next
    case False
    obtain kids' n' where k: "removeHighlights_list kids n = (kids', n')"
      by (cases "removeHighlights_list kids n")
    with 2 False have "flat_list kids' = flat_list kids"
      "concat (map textContent kids') = concat (map textContent kids)"
      by simp_all
    with False k show ?thesis by simp
  qed
next
  case (3 n)
  then show ?case by simp
next
  case (4 k ks n)
  obtain k' n1 where k: "removeHighlights_node k n = (k', n1)"
    by (cases "removeHighlights_node k n")
  obtain ks' n2 where ks: "removeHighlights_list ks n1 = (ks', n2)"
    by (cases "removeHighlights_list ks n1")
  from 4(1) k have 1: "\<And>ys. flat_list (k' # ys) = flat_list (k # ys)"
    and 2: "textContent k' = textContent k" by simp_all
  from 4(2) [OF k [symmetric]] ks have 3: "flat_list ks' = flat_list ks"
    and 4: "concat (map textContent ks') = concat (map textContent ks)" by simp_all
  have "flat_list (k' # ks') = flat_list (k # ks')" by (rule 1)
  also have "\<dots> = flat_list ([k] @ ks')" by simp
  also have "\<dots> = flat_list ([k] @ ks)" using 3 by (rule flat_list_append_cong)
  finally show ?case using k ks 2 4 by simp
qed

lemma flat_unmarked:
  "concat (map highlights ks) = [] \<Longrightarrow> flat_list ks = normalize_list ks"
proof (induction ks rule: flat_list.induct)
  case 1
  then show ?case by simp
next
  case (2 i s r)
  then show ?case by simp
next
  case (3 i tag hl hid kids r)
  from "3.prems" have nh: "\<not> hl" and k: "concat (map highlights kids) = []"
    and r: "concat (map highlights r) = []"
    by (auto split: if_splits)
  from "3.IH"(2) [OF nh k] "3.IH"(3) [OF nh r] nh show ?case by simp
qed

lemma nonoverlapping_sort_key:
  "nonoverlapping lo ms \<Longrightarrow> sort_key m_start ms = ms"
  by (rule sort_key_id_if_sorted) (rule nonoverlapping_sorted)


text \<open>
  Claim C7. In a well-formed document without markers (the state in which
  \<open>highlightNode\<close> starts the pipeline), the pass over the entries of \<open>getTextNodes\<close>
  with the filtered matches of \<open>findMatches\<close> completes, and \<open>removeHighlights\<close> after
  it gives a document whose normalized content is that of the document before the
  pass: the same elements and, leaf by leaf, the same text; in particular the
  concatenated text is the same.
\<close>

theorem removeHighlights_restores_content:
  assumes "well_formed (root, n)"
    and "querySelectorAll_highlight root = []"
    and "getTextNodes lower root options = (texts, mergedText)"
    and "matches = filter (\<lambda>m. \<not> isInSelection m texts selection) (findMatches mergedText text)"
  shows "\<exists>d. highlightMatches texts matches (root, n) = Inr d
           \<and> normalized (fst (removeHighlights d)) = normalized root
           \<and> textContent (fst (removeHighlights d)) = textContent root"
proof (cases root)
  case (Text i s)
  with assms(3) have "texts = []" by (auto simp: getTextNodes_def Let_def)
  with Text show ?thesis by (simp add: highlightMatches_def)
next
  case (Elem r tag hl hid ks)
  define eh where "eh = (case excludeHidden options of None \<Rightarrow> True | Some b \<Rightarrow> b)"
  define mcl where "mcl = (case minContentLength options of None \<Rightarrow> 1 | Some n \<Rightarrow> n)"
  define acc where "acc = walker_nodes lower eh mcl root"
  from assms(3) have texts: "texts = push_entries 0 acc"
    by (auto simp: getTextNodes_def Let_def acc_def eh_def mcl_def)
  from assms(1) have d: "distinct (node_ids root)"
    and bound: "\<forall>i \<in> set (node_ids root). i < n"
    and short: "\<forall>(i, s) \<in> set (text_nodes root). length s < 2 ^ 32"
    by (simp_all add: well_formed_def)
  have dacc: "distinct (map fst acc)"
    unfolding acc_def using d by (rule walker_nodes_distinct)
  have own: "\<forall>(i, s) \<in> set acc. find_list i ks = Some (Text i s)
            \<and> (\<forall>k \<in> set ks. sole i s k) \<and> length s < 2 ^ 32"
  proof (clarify, intro conjI)
    fix i s assume "(i, s) \<in> set acc"
    with walker_nodes_text_nodes [of lower eh mcl root]
    have t: "(i, s) \<in> set (text_nodes root)" by (auto simp: acc_def)
    from text_node_sole [OF d t]
    have f: "find_node i (Elem r tag hl hid ks) = Some (Text i s)"
      and s: "sole i s (Elem r tag hl hid ks)" unfolding Elem by blast+
    from s have ri: "r \<noteq> i" by simp
    with f show "find_list i ks = Some (Text i s)" by simp
    from s show "\<forall>k \<in> set ks. sole i s k" by simp
    from short t show "length s < 2 ^ 32" by blast
  qed
  have ids: "\<forall>j \<in> set (concat (map node_ids ks)). j < n"
    using bound Elem by simp
  have no: "nonoverlapping 0 matches"
    unfolding assms(4) by (rule nonoverlapping_filter) (rule findMatches_nonoverlapping)
  from forEach_entry_ok [OF dacc own ids no, of 0 0 r tag hl hid]
  obtain ks' n' where run: "forEach_entry (push_entries 0 acc) matches 0 (Elem r tag hl hid ks, n)
                              = Inr (Elem r tag hl hid ks', n')"
    and flat: "flat_list ks' = flat_list ks"
    and tc: "concat (map textContent ks') = concat (map textContent ks)"
    by blast
  have hm: "highlightMatches texts matches (root, n) = Inr (Elem r tag hl hid ks', n')"
    using run by (simp add: highlightMatches_def nonoverlapping_sort_key [OF no] texts Elem)
  obtain ks'' n'' where rh: "removeHighlights_list ks' n' = (ks'', n'')"
    by (cases "removeHighlights_list ks' n'")
  from removeHighlights_flat(2) [of ks' n'] rh
  have flat2: "flat_list ks'' = flat_list ks'"
    and text2: "concat (map textContent ks'') = concat (map textContent ks')" by simp_all
  from removeHighlights_clears(2) [of ks' n'] rh
  have "concat (map highlights ks'') = []" by simp
  then have n2: "flat_list ks'' = normalize_list ks''" by (rule flat_unmarked)
  from assms(2) Elem have "concat (map highlights ks) = []"
    by (simp add: querySelectorAll_highlight_def)
  then have n0: "flat_list ks = normalize_list ks" by (rule flat_unmarked)
  have nn: "normalize_list ks'' = normalize_list ks"
    using n2 flat2 flat n0 by simp
  have "normalized (fst (removeHighlights (Elem r tag hl hid ks', n'))) = normalized root"
    using rh nn Elem by (simp add: normalized_def)
  moreover have "textContent (fst (removeHighlights (Elem r tag hl hid ks', n'))) = textContent root"
    using rh text2 tc Elem by simp
  ultimately show ?thesis using hm by blast
qed

theorem removeHighlights_restores_content_witness:
  "well_formed (Elem 0 (js ''BODY'') False False
                  [Text 1 (js ''ab''), Text 2 (js ''cd''), Text 3 (js ''ef'')], 4)
   \<and> querySelectorAll_highlight
        (Elem 0 (js ''BODY'') False False
           [Text 1 (js ''ab''), Text 2 (js ''cd''), Text 3 (js ''ef'')]) = []
   \<and> normalized (fst (removeHighlights
        (Elem 0 (js ''BODY'') False False
              [Text 1 (js ''a''), Elem 6 (js ''SPAN'') True False [Text 7 (js ''b'')], Text 5 [],
               Text 2 [], Elem 10 (js ''SPAN'') True False [Text 11 (js ''cd'')], Text 9 [],
               Text 3 [], Elem 14 (js ''SPAN'') True False [Text 15 (js ''e'')],
               Text 13 (js ''f'')], 16)))
     = [SElem (js ''BODY'') False False [SText (js ''abcdef'')]]"
proof -
  let ?root = "Elem 0 (js ''BODY'') False False
                 [Text 1 (js ''ab''), Text 2 (js ''cd''), Text 3 (js ''ef'')]"
  let ?texts = "[\<lparr>t_node = 1, t_start = 0, t_end = 2\<rparr>,
                 \<lparr>t_node = 2, t_start = 2, t_end = 4\<rparr>,
                 \<lparr>t_node = 3, t_start = 4, t_end = 6\<rparr>]"
  let ?after = "(Elem 0 (js ''BODY'') False False
              [Text 1 (js ''a''), Elem 6 (js ''SPAN'') True False [Text 7 (js ''b'')], Text 5 [],
               Text 2 [], Elem 10 (js ''SPAN'') True False [Text 11 (js ''cd'')], Text 9 [],
               Text 3 [], Elem 14 (js ''SPAN'') True False [Text 15 (js ''e'')],
               Text 13 (js ''f'')], 16 :: nat)"
  have wf: "well_formed (?root, 4)" by (simp add: well_formed_def js_def)
  have nh: "querySelectorAll_highlight ?root = []" by code_simp
  have gt: "getTextNodes toLowerCase ?root no_options = (?texts, js ''abcdef'')" by code_simp
  have ms: "[\<lparr>m_start = 1, m_end = 5\<rparr>]
            = filter (\<lambda>m. \<not> isInSelection m ?texts None) (findMatches (js ''abcdef'') (js ''bcde''))"
    by code_simp
  from removeHighlights_restores_content [OF wf nh gt ms]
  obtain d where d: "highlightMatches ?texts [\<lparr>m_start = 1, m_end = 5\<rparr>] (?root, 4) = Inr d"
    and n: "normalized (fst (removeHighlights d)) = normalized ?root"
    by blast
  have run: "highlightMatches ?texts [\<lparr>m_start = 1, m_end = 5\<rparr>] (?root, 4) = Inr ?after"
    by code_simp
  with d have "d = ?after" by simp
  moreover have "normalized ?root = [SElem (js ''BODY'') False False [SText (js ''abcdef'')]]"
    by code_simp
  ultimately show ?thesis using wf nh n by simp
qed

end
